theory Spec2Isabelle
  imports Complex_Main "HOL-Library.Product_Lexorder" "HOL-Library.Log_Nat" "HOL-Library.Multiset"
begin

section \<open>Strings\<close>

text \<open>
  A Python \<open>str\<close> is a sequence of Unicode code points, and the analyzer reads three code
  points outside ASCII (the flat sign, the sharp sign and the increment sign used as the
  major-seven delta).  A string is therefore a list of code points; \<open>str\<close> turns an ASCII
  literal into one.
\<close>

type_synonym ustr = "nat list"

definition str :: "string \<Rightarrow> ustr" where
  "str s = map of_char s"

definition flat_sign :: nat where
  "flat_sign = 9837"   \<comment> \<open>U+266D\<close>

definition sharp_sign :: nat where
  "sharp_sign = 9839"   \<comment> \<open>U+266F\<close>

definition delta_sign :: nat where
  "delta_sign = 8710"   \<comment> \<open>U+2206\<close>

text \<open>
  The code points that \<open>str.strip()\<close> removes: those for which \<open>str.isspace\<close> holds.
\<close>

definition is_space :: "nat \<Rightarrow> bool" where
  "is_space c \<longleftrightarrow>
     (9 \<le> c \<and> c \<le> 13) \<or> (28 \<le> c \<and> c \<le> 32) \<or> c = 133 \<or> c = 160 \<or> c = 5760 \<or>
     (8192 \<le> c \<and> c \<le> 8202) \<or> c = 8232 \<or> c = 8233 \<or> c = 8239 \<or> c = 8287 \<or> c = 12288"

definition strip :: "ustr \<Rightarrow> ustr" where
  "strip s = rev (dropWhile is_space (rev (dropWhile is_space s)))"

text \<open>\<open>s.replace(old, new)\<close> for one-character \<open>old\<close> and \<open>new\<close>.\<close>

definition replace_char :: "nat \<Rightarrow> nat \<Rightarrow> ustr \<Rightarrow> ustr" where
  "replace_char old new s = map (\<lambda>c. if c = old then new else c) s"

text \<open>
  Case mapping.  The letters the analyzer looks for are ASCII; the case mapping of a code
  point outside ASCII is left as the identity.
\<close>

definition lower_char :: "nat \<Rightarrow> nat" where
  "lower_char c = (if 65 \<le> c \<and> c \<le> 90 then c + 32 else c)"

definition upper_char :: "nat \<Rightarrow> nat" where
  "upper_char c = (if 97 \<le> c \<and> c \<le> 122 then c - 32 else c)"

definition lower :: "ustr \<Rightarrow> ustr" where
  "lower s = map lower_char s"

definition upper :: "ustr \<Rightarrow> ustr" where
  "upper s = map upper_char s"

text \<open>\<open>s.startswith(p)\<close> and the substring test \<open>sub in s\<close>.\<close>

fun startswith :: "ustr \<Rightarrow> ustr \<Rightarrow> bool" where
  "startswith s [] = True"
| "startswith [] (p # ps) = False"
| "startswith (c # cs) (p # ps) = (c = p \<and> startswith cs ps)"

fun str_in :: "ustr \<Rightarrow> ustr \<Rightarrow> bool" where
  "str_in sub [] = (sub = [])"
| "str_in sub (c # cs) = (startswith (c # cs) sub \<or> str_in sub cs)"

section \<open>Errors\<close>

text \<open>
  Every \<open>raise\<close> of the source is a value.  The analyzer raises \<open>ValueError\<close> with two
  messages: "Empty chord symbol." (\<open>EmptyChordError\<close>) and "Unknown note name: ..." with
  the normalized name (\<open>UnknownNoteError\<close>).  A dictionary lookup of a missing key raises
  \<open>KeyError\<close>, and an index into a list that is too short raises \<open>IndexError\<close>.
\<close>

datatype error = EmptyChordError | UnknownNoteError ustr | KeyError int | IndexError

section \<open>Constants\<close>

definition NOTE_TO_PC :: "(ustr \<times> int) list" where
  "NOTE_TO_PC =
    [(str ''C'', 0), (str ''B#'', 0),
     (str ''C#'', 1), (str ''Db'', 1),
     (str ''D'', 2),
     (str ''D#'', 3), (str ''Eb'', 3),
     (str ''E'', 4), (str ''Fb'', 4),
     (str ''F'', 5), (str ''E#'', 5),
     (str ''F#'', 6), (str ''Gb'', 6),
     (str ''G'', 7),
     (str ''G#'', 8), (str ''Ab'', 8),
     (str ''A'', 9),
     (str ''A#'', 10), (str ''Bb'', 10),
     (str ''B'', 11), (str ''Cb'', 11)]"

definition MAJOR_INTERVALS :: "int list" where
  "MAJOR_INTERVALS = [0, 2, 4, 5, 7, 9, 11]"

definition DEGREE_LABELS :: "(int \<times> ustr) list" where
  "DEGREE_LABELS =
    [(0, str ''1''), (1, str ''b2''), (2, str ''2''), (3, str ''b3''), (4, str ''3''),
     (5, str ''4''), (6, str ''b5''), (7, str ''5''), (8, str ''#5''), (9, str ''6''),
     (10, str ''b7''), (11, str ''7'')]"

definition ROMANS :: "(int \<times> ustr) list" where
  "ROMANS =
    [(1, str ''I''), (2, str ''II''), (3, str ''III''), (4, str ''IV''), (5, str ''V''),
     (6, str ''VI''), (7, str ''VII'')]"

section \<open>Basic helpers\<close>

definition normalize_note :: "ustr \<Rightarrow> ustr" where
  "normalize_note name =
     (let s = replace_char sharp_sign (of_char CHR ''#'')
                (replace_char flat_sign (of_char CHR ''b'') (strip name))
      in case s of [] \<Rightarrow> s | c # cs \<Rightarrow> upper [c] @ cs)"

definition note_to_pc :: "ustr \<Rightarrow> error + int" where
  "note_to_pc name =
     (let name = normalize_note name
      in case map_of NOTE_TO_PC name of
           None \<Rightarrow> Inl (UnknownNoteError name)
         | Some pc \<Rightarrow> Inr pc)"

definition build_scale_from_intervals :: "int \<Rightarrow> int list \<Rightarrow> int list" where
  "build_scale_from_intervals root_pc intervals = map (\<lambda>i. (root_pc + i) mod 12) intervals"

definition build_major_scale_pcs :: "ustr \<Rightarrow> error + int list" where
  "build_major_scale_pcs tonic =
     (case note_to_pc tonic of
        Inl e \<Rightarrow> Inl e
      | Inr t_pc \<Rightarrow> Inr (map (\<lambda>i. (t_pc + i) mod 12) MAJOR_INTERVALS))"

definition pitch_to_degree_label :: "int \<Rightarrow> int \<Rightarrow> error + ustr" where
  "pitch_to_degree_label note_pc root_pc =
     (let k = (note_pc - root_pc) mod 12
      in case map_of DEGREE_LABELS k of None \<Rightarrow> Inl (KeyError k) | Some l \<Rightarrow> Inr l)"

section \<open>Chord parsing and required tones\<close>

record chord =
  symbol :: ustr
  root :: ustr
  quality :: ustr
  dominant :: bool
  alts :: "ustr list"
  exts :: "ustr list"

text \<open>The text of the symbol after stripping and mapping the accidentals to ASCII.\<close>

definition chord_text :: "ustr \<Rightarrow> ustr" where
  "chord_text symb =
     replace_char sharp_sign (of_char CHR ''#'')
       (replace_char flat_sign (of_char CHR ''b'') (strip symb))"

definition parse_chord_symbol :: "ustr \<Rightarrow> error + chord" where
  "parse_chord_symbol symb =
     (let s = chord_text symb in
      if s = [] then Inl EmptyChordError
      else
        let (root0, rest) =
              (if length s \<ge> 2 \<and> (s ! 1 = of_char CHR ''b'' \<or> s ! 1 = of_char CHR ''#'')
               then (take 2 s, drop 2 s)
               else (take 1 s, drop 1 s));
            root1 = normalize_note root0;
            r = lower rest;
            q0 = str ''maj'';
            q1 = (if str_in (str ''maj'') r \<or> str_in (str ''ma7'') r \<or> str_in (str ''maj7'') r
                     \<or> str_in [delta_sign] r
                  then str ''maj''
                  else if startswith r (str ''m'') \<or> str_in (str ''min'') r then str ''min''
                  else q0);
            is_dom = (list_ex (\<lambda>x. str_in x r) [str ''7'', str ''9'', str ''11'', str ''13'']
                   \<and> (\<not> str_in (str ''maj'') r
                        \<and> \<not> (startswith r (str ''m'') \<or> str_in (str ''min'') r)));
            q2 = (if is_dom then str ''dom'' else q1);
            alts1 = filter (\<lambda>a. str_in a r)
                      [str ''b9'', str ''#9'', str ''b13'', str ''#11'', str ''b5'', str ''#5''];
            exts1 = filter (\<lambda>e. str_in e r) [str ''13'', str ''11'', str ''9'', str ''7'']
        in Inr \<lparr> symbol = symb, root = root1, quality = q2, dominant = is_dom,
                 alts = alts1, exts = exts1 \<rparr>)"

text \<open>The inner helper \<open>uniq\<close>: the first occurrence of each element, in order.\<close>

fun uniq_loop :: "int list \<Rightarrow> int list \<Rightarrow> int set \<Rightarrow> int list" where
  "uniq_loop [] out seen = out"
| "uniq_loop (x # xs) out seen =
     (if x \<notin> seen then uniq_loop xs (out @ [x]) (insert x seen) else uniq_loop xs out seen)"

definition uniq :: "int list \<Rightarrow> int list" where
  "uniq xs = uniq_loop xs [] {}"

definition chord_required_semitones :: "chord \<Rightarrow> int list \<times> int list" where
  "chord_required_semitones ch =
     (let q = quality ch;
          exts0 = exts ch;
          alts0 = set (alts ch);
          core =
            (if q = str ''maj'' then
               [0, 4, 7] @ (if str ''7'' \<in> set exts0 \<or> str_in (str ''maj7'') (lower (symbol ch))
                               \<or> str_in (str ''ma7'') (lower (symbol ch))
                            then [11] else [])
             else if q = str ''min'' then
               [0, 3, 7] @ (if str ''7'' \<in> set exts0 \<or> str_in (str ''m7'') (lower (symbol ch))
                            then [10] else [])
             else [0, 4, 7, 10]);
          extra =
            (if str ''9'' \<in> set exts0 then [2] else []) @
            (if str ''11'' \<in> set exts0 then [5] else []) @
            (if str ''13'' \<in> set exts0 then [9] else []) @
            (if str ''b9'' \<in> alts0 then [1] else []) @
            (if str ''#9'' \<in> alts0 then [3] else []) @
            (if str ''#11'' \<in> alts0 then [6] else []) @
            (if str ''b13'' \<in> alts0 then [8] else []) @
            (if str ''b5'' \<in> alts0 then [6] else []) @
            (if str ''#5'' \<in> alts0 then [8] else [])
      in (uniq core, uniq extra))"

section \<open>Roman numeral in the global major key\<close>

fun index_of :: "int list \<Rightarrow> int \<Rightarrow> nat" where
  "index_of [] x = 0"
| "index_of (y # ys) x = (if y = x then 0 else Suc (index_of ys x))"

definition degree_in_global_major :: "ustr \<Rightarrow> ustr \<Rightarrow> error + int" where
  "degree_in_global_major chord_root global_key =
     (case build_major_scale_pcs global_key of
        Inl e \<Rightarrow> Inl e
      | Inr scale \<Rightarrow>
          (case note_to_pc chord_root of
             Inl e \<Rightarrow> Inl e
           | Inr r_pc \<Rightarrow> Inr (if r_pc \<in> set scale then int (index_of scale r_pc) + 1 else 0)))"

definition roman_for_degree :: "int \<Rightarrow> ustr \<Rightarrow> error + ustr" where
  "roman_for_degree deg q =
     (if deg = 0 then Inr (str ''N/A'')
      else case map_of ROMANS deg of
             None \<Rightarrow> Inl (KeyError deg)
           | Some base \<Rightarrow> Inr (if q = str ''min'' then lower base else base))"

section \<open>The 21-mode catalog\<close>

record mode =
  family :: ustr
  family_rank :: nat
  mode_rank :: nat
  name :: ustr
  intervals :: "int list"

definition major_modes :: "(ustr \<times> int list) list" where
  "major_modes =
    [(str ''Ionian (major)'', [0, 2, 4, 5, 7, 9, 11]),
     (str ''Dorian'', [0, 2, 3, 5, 7, 9, 10]),
     (str ''Phrygian'', [0, 1, 3, 5, 7, 8, 10]),
     (str ''Lydian'', [0, 2, 4, 6, 7, 9, 11]),
     (str ''Mixolydian'', [0, 2, 4, 5, 7, 9, 10]),
     (str ''Aeolian (natural minor)'', [0, 2, 3, 5, 7, 8, 10]),
     (str ''Locrian'', [0, 1, 3, 5, 6, 8, 10])]"

definition melodic_minor_modes :: "(ustr \<times> int list) list" where
  "melodic_minor_modes =
    [(str ''Melodic minor'', [0, 2, 3, 5, 7, 9, 11]),
     (str ''Dorian b2'', [0, 1, 3, 5, 7, 9, 10]),
     (str ''Lydian augmented'', [0, 2, 4, 6, 8, 9, 11]),
     (str ''Lydian dominant'', [0, 2, 4, 6, 7, 9, 10]),
     (str ''Mixolydian b6'', [0, 2, 4, 5, 7, 8, 10]),
     (str ''Locrian #2'', [0, 2, 3, 5, 6, 8, 10]),
     (str ''Altered (super locrian)'', [0, 1, 3, 4, 6, 8, 10])]"

definition harmonic_minor_modes :: "(ustr \<times> int list) list" where
  "harmonic_minor_modes =
    [(str ''Harmonic minor'', [0, 2, 3, 5, 7, 8, 11]),
     (str ''Locrian #6'', [0, 1, 3, 5, 6, 9, 10]),
     (str ''Ionian #5'', [0, 2, 4, 5, 8, 9, 11]),
     (str ''Dorian #4'', [0, 2, 3, 6, 7, 9, 10]),
     (str ''Phrygian dominant'', [0, 1, 4, 5, 7, 8, 10]),
     (str ''Lydian #2'', [0, 3, 4, 6, 7, 9, 11]),
     (str ''Altered diminished'', [0, 1, 3, 4, 6, 7, 9])]"

text \<open>
  \<open>_build_catalog\<close>: the two nested \<open>enumerate\<close> loops append one entry per mode, family
  by family.
\<close>

definition MODE_CATALOG :: "mode list" where
  "MODE_CATALOG =
     concat (map (\<lambda>(fam_i, (fam, modes)).
                map (\<lambda>(mode_i, (nm, ivs)).
                      \<lparr> family = fam, family_rank = fam_i, mode_rank = mode_i,
                        name = nm, intervals = ivs \<rparr>)
                    (enumerate 0 modes))
              (enumerate 0 [(str ''major'', major_modes),
                            (str ''melodic_minor'', melodic_minor_modes),
                            (str ''harmonic_minor'', harmonic_minor_modes)]))"

section \<open>Floating point\<close>

text \<open>
  A Python \<open>float\<close> is an IEEE 754 double.  A finite double is modelled by the rational
  number it denotes, and every arithmetic operation returns the exact result rounded to
  the nearest double, ties to even (\<open>fl\<close>): a double has a significand of 53 bits, so a
  positive \<open>x\<close> with \<open>2^e \<le> x < 2^(e+1)\<close> is rounded to a multiple of \<open>2^(e-52)\<close>.
  The exponent range of doubles is not modelled: the scores below are sums of at most
  \<open>n\<close> weights between \<open>1/n\<close> and \<open>1\<close> and of a few small constants, so no overflow
  and no subnormal number can arise for a melody that fits in memory.
\<close>

definition exponent :: "rat \<Rightarrow> int" where
  "exponent x = (if 1 \<le> x then bitlen \<lfloor>x\<rfloor> - 1 else - bitlen (\<lceil>1 / x\<rceil> - 1))"

definition round_half_even :: "rat \<Rightarrow> int" where
  "round_half_even y =
     (let f = \<lfloor>y\<rfloor>; r = y - of_int f
      in if r < 1 / 2 then f else if 1 / 2 < r then f + 1 else if even f then f else f + 1)"

definition fl_pos :: "rat \<Rightarrow> rat" where
  "fl_pos x =
     (let e = exponent x
      in of_int (round_half_even (x * 2 powi (52 - e))) * 2 powi (e - 52))"

definition fl :: "rat \<Rightarrow> rat" where
  "fl x = (if x = 0 then 0 else if 0 < x then fl_pos x else - fl_pos (- x))"

definition fadd :: "rat \<Rightarrow> rat \<Rightarrow> rat" where
  "fadd a b = fl (a + b)"

definition fsub :: "rat \<Rightarrow> rat \<Rightarrow> rat" where
  "fsub a b = fl (a - b)"

definition fmul :: "rat \<Rightarrow> rat \<Rightarrow> rat" where
  "fmul a b = fl (a * b)"

text \<open>The conversion of an \<open>int\<close> operand to \<open>float\<close>, and the true division \<open>a / b\<close> of two \<open>int\<close>s.\<close>

definition float_of_int :: "int \<Rightarrow> rat" where
  "float_of_int k = fl (rat_of_int k)"

definition int_truediv :: "int \<Rightarrow> int \<Rightarrow> rat" where
  "int_truediv a b = fl (rat_of_int a / rat_of_int b)"

text \<open>The rationals that are doubles (up to the exponent range).\<close>

definition representable :: "rat \<Rightarrow> bool" where
  "representable x \<longleftrightarrow> (\<exists>k j. \<bar>k\<bar> < 2 ^ 53 \<and> x = of_int k * 2 powi j)"

section \<open>The mode matching engine\<close>

text \<open>
  A Python \<open>set\<close> of integers is the list of its distinct elements: \<open>len\<close> is \<open>length\<close>,
  \<open>in\<close> is membership in the list's set of elements, and iterating it walks the list.
  (Python does not specify the iteration order of a set; the statements below do not
  depend on it.)

  The scores are doubles, computed operation by operation as the source does.
\<close>

definition py_set :: "int list \<Rightarrow> int list" where
  "py_set xs = remdups xs"

record match_result =
  mode :: mode
  score :: rat
  missing_core :: "int list"
  missing_extra :: "int list"
  melody_score :: rat
  melody_hits :: "bool list"

text \<open>The list \<open>weights\<close> for \<open>n = max(len(melody_pcs), 1)\<close>.\<close>

definition weights :: "nat \<Rightarrow> rat list" where
  "weights n = map (\<lambda>i. int_truediv (int n - int i) (int n)) [0..<n]"

text \<open>
  The loop over \<open>enumerate(melody_pcs)\<close>, with \<open>melody_hits\<close> and \<open>melody_score\<close> as
  accumulators.  \<open>weights\<close> has \<open>max(len(melody_pcs), 1)\<close> entries, so \<open>weights[i]\<close> is
  always in range.
\<close>

fun melody_loop ::
  "int list \<Rightarrow> rat list \<Rightarrow> (nat \<times> int) list \<Rightarrow> bool list \<Rightarrow> rat \<Rightarrow> bool list \<times> rat" where
  "melody_loop mode_pcs ws [] hits sc = (hits, sc)"
| "melody_loop mode_pcs ws ((i, pc) # rest) hits sc =
     (let hit = (pc \<in> set mode_pcs)
      in melody_loop mode_pcs ws rest (hits @ [hit])
           (if hit then fadd sc (fmul 1 (ws ! i)) else sc))"

definition mode_match_rank ::
  "int \<Rightarrow> int list \<Rightarrow> int list \<Rightarrow> int list \<Rightarrow> mode \<Rightarrow> match_result" where
  "mode_match_rank root_pc core extra melody_pcs m =
     (let mode_pcs = py_set (build_scale_from_intervals root_pc (intervals m));
          core_pcs = py_set (map (\<lambda>s. (root_pc + s) mod 12) core);
          extra_pcs = py_set (map (\<lambda>s. (root_pc + s) mod 12) extra);
          missing_core0 = filter (\<lambda>pc. pc \<notin> set mode_pcs) core_pcs;
          missing_extra0 = filter (\<lambda>pc. pc \<notin> set mode_pcs) extra_pcs;
          n = max (length melody_pcs) 1;
          ws = weights n;
          (hits, msc) = melody_loop mode_pcs ws (enumerate 0 melody_pcs) [] 0;
          sc0 = 0;
          sc1 = fadd sc0
                  (fmul 4 (float_of_int (int (length core_pcs) - int (length missing_core0))));
          sc2 = fsub sc1 (fmul 10 (float_of_int (int (length missing_core0))));
          sc3 = fadd sc2
                  (fmul (3 / 2)
                     (float_of_int (int (length extra_pcs) - int (length missing_extra0))));
          sc4 = fsub sc3 (fmul (5 / 2) (float_of_int (int (length missing_extra0))));
          sc5 = fadd sc4 msc
      in \<lparr> mode = m, score = sc5, missing_core = missing_core0,
           missing_extra = missing_extra0, melody_score = msc, melody_hits = hits \<rparr>)"

text \<open>
  \<open>ranked\<close>, the local list of \<open>choose_modes_21\<close>: one result per catalog mode, then
  \<open>list.sort\<close> (a stable sort) on the key tuple, compared lexicographically.
\<close>

definition rank_key :: "match_result \<Rightarrow> rat \<times> nat \<times> nat" where
  "rank_key x = (- score x, family_rank (mode x), mode_rank (mode x))"

definition ranked_results :: "int \<Rightarrow> int list \<Rightarrow> int list \<Rightarrow> int list \<Rightarrow> match_result list" where
  "ranked_results root_pc core extra melody_pcs =
     sort_key rank_key (map (mode_match_rank root_pc core extra melody_pcs) MODE_CATALOG)"

text \<open>The slice \<open>xs[a:b]\<close> for \<open>0 \<le> a\<close> and \<open>0 \<le> b\<close>.\<close>

definition slice :: "'a list \<Rightarrow> nat \<Rightarrow> nat \<Rightarrow> 'a list" where
  "slice xs a b = drop a (take b xs)"

record mode_choice =
  best :: match_result
  alternatives :: "match_result list"

definition choose_modes_21 :: "chord \<Rightarrow> int list \<Rightarrow> error + mode_choice" where
  "choose_modes_21 chord_info melody_pcs =
     (case note_to_pc (root chord_info) of
        Inl e \<Rightarrow> Inl e
      | Inr root_pc \<Rightarrow>
          (let (core, extra) = chord_required_semitones chord_info;
               ranked = ranked_results root_pc core extra melody_pcs
           in case ranked of
                [] \<Rightarrow> Inl IndexError
              | b # _ \<Rightarrow> Inr \<lparr> best = b, alternatives = slice ranked 1 6 \<rparr>))"

section \<open>Melody function tags\<close>

text \<open>
  \<open>labels\<close> is a dictionary with the keys \<open>0 .. n - 1\<close>, each holding a list of labels: a
  list of lists here.  Every index the loops write to lies in \<open>0 .. n - 1\<close>, so no lookup
  fails.
\<close>

definition append_label :: "nat \<Rightarrow> ustr \<Rightarrow> ustr list list \<Rightarrow> ustr list list" where
  "append_label i l labels = labels[i := labels ! i @ [l]]"

definition is_step :: "int \<Rightarrow> bool" where
  "is_step d \<longleftrightarrow> d = 1 \<or> d = 2 \<or> d = 10 \<or> d = 11"

definition chord_tone_set :: "ustr \<Rightarrow> int \<Rightarrow> int list" where
  "chord_tone_set q root_pc =
     (if q = str ''maj'' then py_set (map (\<lambda>s. (root_pc + s) mod 12) [0, 4, 7, 11])
      else if q = str ''min'' then py_set (map (\<lambda>s. (root_pc + s) mod 12) [0, 3, 7, 10])
      else py_set (map (\<lambda>s. (root_pc + s) mod 12) [0, 4, 7, 10]))"

definition guide_tone_set :: "ustr \<Rightarrow> int \<Rightarrow> int list" where
  "guide_tone_set q root_pc =
     (if q = str ''maj'' then py_set [(root_pc + 4) mod 12, (root_pc + 11) mod 12]
      else if q = str ''min'' then py_set [(root_pc + 3) mod 12, (root_pc + 10) mod 12]
      else py_set [(root_pc + 4) mod 12, (root_pc + 10) mod 12])"

definition tone_step :: "int list \<Rightarrow> int list \<Rightarrow> nat \<times> int \<Rightarrow> ustr list list \<Rightarrow> ustr list list" where
  "tone_step chord_tones guide_tones ip labels =
     (let (i, pc) = ip;
          labels1 = (if pc \<in> set guide_tones then append_label i (str ''guide_tone'') labels
                     else labels)
      in if pc \<in> set chord_tones then append_label i (str ''chord_tone'') labels1 else labels1)"

definition scale_step :: "int list \<Rightarrow> nat \<Rightarrow> ustr list list \<Rightarrow> ustr list list" where
  "scale_step melody_pcs i labels =
     (let a = melody_pcs ! (i - 1); b = melody_pcs ! i; c = melody_pcs ! (i + 1);
          d1 = (b - a) mod 12;
          d2 = (c - b) mod 12
      in if is_step d1 \<and> d2 = d1
         then append_label (i + 1) (str ''scale_line'')
                (append_label i (str ''scale_line'')
                  (append_label (i - 1) (str ''scale_line'') labels))
         else labels)"

definition neighbor_step :: "int list \<Rightarrow> int list \<Rightarrow> nat \<Rightarrow> ustr list list \<Rightarrow> ustr list list" where
  "neighbor_step chord_tones melody_pcs i labels =
     (let a = melody_pcs ! (i - 1); b = melody_pcs ! i; c = melody_pcs ! (i + 1)
      in if a = c \<and> a \<in> set chord_tones
         then (let step = (b - a) mod 12
               in if step = 1 \<or> step = 2 then append_label i (str ''upper_neighbor'') labels
                  else if step = 10 \<or> step = 11
                       then append_label i (str ''lower_neighbor'') labels
                       else labels)
         else labels)"

definition passing_step :: "int list \<Rightarrow> int list \<Rightarrow> nat \<Rightarrow> ustr list list \<Rightarrow> ustr list list" where
  "passing_step chord_tones melody_pcs i labels =
     (let a = melody_pcs ! (i - 1); b = melody_pcs ! i; c = melody_pcs ! (i + 1)
      in if a \<in> set chord_tones \<and> c \<in> set chord_tones \<and> b \<notin> set chord_tones
         then (let up = (b - a) mod 12; down = (c - b) mod 12
               in if is_step up \<and> is_step down
                  then (if up = 1 \<or> down = 1 \<or> up = 11 \<or> down = 11
                        then append_label i (str ''chromatic_passing_tone'') labels
                        else append_label i (str ''passing_tone'') labels)
                  else labels)
         else labels)"

text \<open>
  The four loops run one after the other on the same dictionary; \<open>range(1, n - 1)\<close> is
  empty when \<open>n < 3\<close>.
\<close>

definition analyze_melody_functions :: "int list \<Rightarrow> int \<Rightarrow> ustr \<Rightarrow> ustr list list" where
  "analyze_melody_functions melody_pcs root_pc q =
     (let n = length melody_pcs;
          labels0 = replicate n [];
          chord_tones = chord_tone_set q root_pc;
          guide_tones = guide_tone_set q root_pc;
          labels1 = fold (tone_step chord_tones guide_tones) (enumerate 0 melody_pcs) labels0;
          labels2 = fold (scale_step melody_pcs) [1..<n - 1] labels1;
          labels3 = fold (neighbor_step chord_tones melody_pcs) [1..<n - 1] labels2;
          labels4 = fold (passing_step chord_tones melody_pcs) [1..<n - 1] labels3
      in labels4)"

section \<open>Main analysis\<close>

text \<open>A list comprehension over a function that may raise stops at the first error.\<close>

fun map_err :: "('a \<Rightarrow> error + 'b) \<Rightarrow> 'a list \<Rightarrow> error + 'b list" where
  "map_err f [] = Inr []"
| "map_err f (x # xs) =
     (case f x of
        Inl e \<Rightarrow> Inl e
      | Inr y \<Rightarrow> (case map_err f xs of Inl e \<Rightarrow> Inl e | Inr ys \<Rightarrow> Inr (y # ys)))"

record mode_summary =
  sum_family :: ustr
  sum_name :: ustr
  sum_score :: rat
  sum_melody_score :: rat
  sum_missing_core :: "int list"
  sum_missing_extra :: "int list"

definition summary :: "match_result \<Rightarrow> mode_summary" where
  "summary a = \<lparr> sum_family = family (mode a), sum_name = name (mode a),
                 sum_score = score a, sum_melody_score = melody_score a,
                 sum_missing_core = missing_core a, sum_missing_extra = missing_extra a \<rparr>"

record analysis =
  global_key :: ustr
  chord :: chord
  degree_in_key :: int
  roman :: ustr
  best_mode :: mode_summary
  alternative_modes :: "mode_summary list"
  melody_notes :: "ustr list"
  melody_degrees :: "ustr list"
  function_tags :: "ustr list list"

definition analyze_chord_and_melody :: "ustr \<Rightarrow> ustr list \<Rightarrow> ustr \<Rightarrow> error + analysis" where
  "analyze_chord_and_melody chord_symbol notes key =
     (case parse_chord_symbol chord_symbol of
        Inl e \<Rightarrow> Inl e
      | Inr ch \<Rightarrow>
     (case map_err note_to_pc notes of
        Inl e \<Rightarrow> Inl e
      | Inr melody_pcs \<Rightarrow>
     (case degree_in_global_major (root ch) key of
        Inl e \<Rightarrow> Inl e
      | Inr deg \<Rightarrow>
     (case roman_for_degree deg (quality ch) of
        Inl e \<Rightarrow> Inl e
      | Inr rom \<Rightarrow>
     (case choose_modes_21 ch melody_pcs of
        Inl e \<Rightarrow> Inl e
      | Inr mode_choice \<Rightarrow>
     (case note_to_pc (root ch) of
        Inl e \<Rightarrow> Inl e
      | Inr root_pc \<Rightarrow>
     (case map_err (\<lambda>pc. pitch_to_degree_label pc root_pc) melody_pcs of
        Inl e \<Rightarrow> Inl e
      | Inr degrees \<Rightarrow>
          Inr \<lparr> global_key = key,
                chord = ch,
                degree_in_key = deg,
                roman = rom,
                best_mode = summary (best mode_choice),
                alternative_modes = map summary (alternatives mode_choice),
                melody_notes = map normalize_note notes,
                melody_degrees = degrees,
                function_tags = analyze_melody_functions melody_pcs root_pc (quality ch) \<rparr>)))))))"

section \<open>Melody function tags of the first analyzer\<close>

text \<open>
  \<open>analyze_melody_functions\<close> of \<open>ai-gen.py\<close>.  It takes the pitch classes of the chosen
  scale instead of the chord quality, builds the chord tones and the guide tones as the
  lists \<open>[(root + x) % 12 for x in [0, 4, 7, 11]]\<close> and
  \<open>[(root + 4) % 12, (root + 11) % 12]\<close>, labels a guide tone \<^emph>\<open>or else\<close> a chord tone,
  and names a passing tone by its membership in the scale.  Its scale-line loop and its
  neighbor loop are the loops of \<open>ai-gen_v2.py\<close>, so \<open>scale_step\<close> and \<open>neighbor_step\<close>
  serve both.
\<close>

definition tone_step_v1 :: "int list \<Rightarrow> int list \<Rightarrow> nat \<times> int \<Rightarrow> ustr list list \<Rightarrow> ustr list list" where
  "tone_step_v1 chord_tones guide_tones ip labels =
     (let (i, pc) = ip
      in if pc \<in> set guide_tones then append_label i (str ''guide_tone'') labels
         else if pc \<in> set chord_tones then append_label i (str ''chord_tone'') labels
         else labels)"

definition passing_step_v1 ::
  "int list \<Rightarrow> int list \<Rightarrow> int list \<Rightarrow> nat \<Rightarrow> ustr list list \<Rightarrow> ustr list list" where
  "passing_step_v1 chord_tones chord_scale_pcs melody_pcs i labels =
     (let a = melody_pcs ! (i - 1); b = melody_pcs ! i; c = melody_pcs ! (i + 1)
      in if a \<in> set chord_tones \<and> c \<in> set chord_tones \<and> b \<notin> set chord_tones
         then (let up = (b - a) mod 12; down = (c - b) mod 12
               in if is_step up \<and> is_step down
                  then (if b \<in> set chord_scale_pcs
                        then append_label i (str ''passing_tone'') labels
                        else append_label i (str ''chromatic_passing_tone'') labels)
                  else labels)
         else labels)"

definition analyze_melody_functions_v1 :: "int list \<Rightarrow> int list \<Rightarrow> int \<Rightarrow> ustr list list" where
  "analyze_melody_functions_v1 melody_pcs chord_scale_pcs chord_root_pc =
     (let n = length melody_pcs;
          labels0 = replicate n [];
          chord_tone_semitones = [0, 4, 7, 11];
          chord_tones = map (\<lambda>x. (chord_root_pc + x) mod 12) chord_tone_semitones;
          guide_tones = [(chord_root_pc + 4) mod 12, (chord_root_pc + 11) mod 12];
          labels1 = fold (tone_step_v1 chord_tones guide_tones) (enumerate 0 melody_pcs) labels0;
          labels2 = fold (scale_step melody_pcs) [1..<n - 1] labels1;
          labels3 = fold (neighbor_step chord_tones melody_pcs) [1..<n - 1] labels2;
          labels4 = fold (passing_step_v1 chord_tones chord_scale_pcs melody_pcs) [1..<n - 1] labels3
      in labels4)"


section \<open>The score as the specification words it\<close>

text \<open>
  The weight of position \<open>i\<close> in a melody of \<open>n\<close> notes is \<open>(n - i) / n\<close>, with
  \<open>n = 0\<close> treated as \<open>n = 1\<close>; the melody score of a mode is the sum of the weights of
  the positions whose pitch class lies in the pitch-class set of the mode; the score
  counts the core and extra pitch classes and those of them missing from the mode.

  \<open>exact_weight\<close> and \<open>exact_melody_score\<close> are these quantities in exact arithmetic.
  \<open>spec_weight\<close> is the weight as a double, \<open>float_sum\<close> adds doubles from left to right
  starting from \<open>0.0\<close>, and \<open>spec_melody_score\<close> adds the weights of the hit positions in
  this way, in the order of the positions.
\<close>

definition exact_weight :: "nat \<Rightarrow> nat \<Rightarrow> rat" where
  "exact_weight n i =
     (let n1 = (if n = 0 then 1 else n) in (rat_of_nat n1 - rat_of_nat i) / rat_of_nat n1)"

definition spec_weight :: "nat \<Rightarrow> nat \<Rightarrow> rat" where
  "spec_weight n i = fl (exact_weight n i)"

definition hit_positions :: "int set \<Rightarrow> int list \<Rightarrow> nat list" where
  "hit_positions mode_pcs melody = filter (\<lambda>i. melody ! i \<in> mode_pcs) [0..<length melody]"

definition exact_melody_score :: "int set \<Rightarrow> int list \<Rightarrow> rat" where
  "exact_melody_score mode_pcs melody =
     sum_list (map (exact_weight (length melody)) (hit_positions mode_pcs melody))"

definition float_sum :: "rat list \<Rightarrow> rat" where
  "float_sum ws = foldl fadd 0 ws"

definition spec_melody_score :: "int set \<Rightarrow> int list \<Rightarrow> rat" where
  "spec_melody_score mode_pcs melody =
     float_sum (map (spec_weight (length melody)) (hit_positions mode_pcs melody))"

text \<open>The part of the score that counts pitch classes, in exact arithmetic.\<close>

definition spec_count_score :: "int \<Rightarrow> int list \<Rightarrow> int list \<Rightarrow> mode \<Rightarrow> rat" where
  "spec_count_score root_pc core extra m =
     (let mode_pcs = (\<lambda>i. (root_pc + i) mod 12) ` set (intervals m);
          core_pcs = (\<lambda>s. (root_pc + s) mod 12) ` set core;
          extra_pcs = (\<lambda>s. (root_pc + s) mod 12) ` set extra;
          missing_core = core_pcs - mode_pcs;
          missing_extra = extra_pcs - mode_pcs
      in 4 * (rat_of_nat (card core_pcs) - rat_of_nat (card missing_core))
         - 10 * rat_of_nat (card missing_core)
         + (3 / 2) * (rat_of_nat (card extra_pcs) - rat_of_nat (card missing_extra))
         - (5 / 2) * rat_of_nat (card missing_extra))"

definition exact_score :: "int \<Rightarrow> int list \<Rightarrow> int list \<Rightarrow> int list \<Rightarrow> mode \<Rightarrow> rat" where
  "exact_score root_pc core extra melody m =
     spec_count_score root_pc core extra m
     + exact_melody_score ((\<lambda>i. (root_pc + i) mod 12) ` set (intervals m)) melody"

definition spec_score :: "int \<Rightarrow> int list \<Rightarrow> int list \<Rightarrow> int list \<Rightarrow> mode \<Rightarrow> rat" where
  "spec_score root_pc core extra melody m =
     fl (spec_count_score root_pc core extra m
         + spec_melody_score ((\<lambda>i. (root_pc + i) mod 12) ` set (intervals m)) melody)"

section \<open>The label loops as lists of append operations\<close>

text \<open>
  For the proofs about \<open>analyze_melody_functions\<close>: every loop body appends labels to
  some indices, so each loop is the list of the (index, label) pairs it appends, in
  order.  The lemmas below show that the function is the result of applying these
  operations to the empty lists.
\<close>

definition apply_appends :: "(nat \<times> ustr) list \<Rightarrow> ustr list list \<Rightarrow> ustr list list" where
  "apply_appends ops labels = fold (\<lambda>(i, l). append_label i l) ops labels"

definition tone_ops :: "int list \<Rightarrow> int list \<Rightarrow> nat \<times> int \<Rightarrow> (nat \<times> ustr) list" where
  "tone_ops chord_tones guide_tones ip =
     (if snd ip \<in> set guide_tones then [(fst ip, str ''guide_tone'')] else []) @
     (if snd ip \<in> set chord_tones then [(fst ip, str ''chord_tone'')] else [])"

definition scale_ops :: "int list \<Rightarrow> nat \<Rightarrow> (nat \<times> ustr) list" where
  "scale_ops melody_pcs i =
     (if is_step ((melody_pcs ! i - melody_pcs ! (i - 1)) mod 12) \<and>
         (melody_pcs ! (i + 1) - melody_pcs ! i) mod 12 = (melody_pcs ! i - melody_pcs ! (i - 1)) mod 12
      then [(i - 1, str ''scale_line''), (i, str ''scale_line''), (i + 1, str ''scale_line'')]
      else [])"

definition neighbor_ops :: "int list \<Rightarrow> int list \<Rightarrow> nat \<Rightarrow> (nat \<times> ustr) list" where
  "neighbor_ops chord_tones melody_pcs i =
     (if melody_pcs ! (i - 1) = melody_pcs ! (i + 1) \<and> melody_pcs ! (i - 1) \<in> set chord_tones
      then (if (melody_pcs ! i - melody_pcs ! (i - 1)) mod 12 = 1 \<or>
               (melody_pcs ! i - melody_pcs ! (i - 1)) mod 12 = 2
            then [(i, str ''upper_neighbor'')]
            else if (melody_pcs ! i - melody_pcs ! (i - 1)) mod 12 = 10 \<or>
                    (melody_pcs ! i - melody_pcs ! (i - 1)) mod 12 = 11
                 then [(i, str ''lower_neighbor'')]
                 else [])
      else [])"

definition passing_ops :: "int list \<Rightarrow> int list \<Rightarrow> nat \<Rightarrow> (nat \<times> ustr) list" where
  "passing_ops chord_tones melody_pcs i =
     (if melody_pcs ! (i - 1) \<in> set chord_tones \<and> melody_pcs ! (i + 1) \<in> set chord_tones \<and>
         melody_pcs ! i \<notin> set chord_tones \<and>
         is_step ((melody_pcs ! i - melody_pcs ! (i - 1)) mod 12) \<and>
         is_step ((melody_pcs ! (i + 1) - melody_pcs ! i) mod 12)
      then (if (melody_pcs ! i - melody_pcs ! (i - 1)) mod 12 = 1 \<or>
               (melody_pcs ! (i + 1) - melody_pcs ! i) mod 12 = 1 \<or>
               (melody_pcs ! i - melody_pcs ! (i - 1)) mod 12 = 11 \<or>
               (melody_pcs ! (i + 1) - melody_pcs ! i) mod 12 = 11
            then [(i, str ''chromatic_passing_tone'')]
            else [(i, str ''passing_tone'')])
      else [])"

definition all_ops :: "int list \<Rightarrow> int \<Rightarrow> ustr \<Rightarrow> (nat \<times> ustr) list" where
  "all_ops melody_pcs root_pc q =
     concat (map (tone_ops (chord_tone_set q root_pc) (guide_tone_set q root_pc))
               (enumerate 0 melody_pcs)) @
     concat (map (scale_ops melody_pcs) [1..<length melody_pcs - 1]) @
     concat (map (neighbor_ops (chord_tone_set q root_pc) melody_pcs) [1..<length melody_pcs - 1]) @
     concat (map (passing_ops (chord_tone_set q root_pc) melody_pcs) [1..<length melody_pcs - 1])"

definition tone_ops_v1 :: "int list \<Rightarrow> int list \<Rightarrow> nat \<times> int \<Rightarrow> (nat \<times> ustr) list" where
  "tone_ops_v1 chord_tones guide_tones ip =
     (if snd ip \<in> set guide_tones then [(fst ip, str ''guide_tone'')]
      else if snd ip \<in> set chord_tones then [(fst ip, str ''chord_tone'')]
      else [])"

definition passing_ops_v1 :: "int list \<Rightarrow> int list \<Rightarrow> int list \<Rightarrow> nat \<Rightarrow> (nat \<times> ustr) list" where
  "passing_ops_v1 chord_tones chord_scale_pcs melody_pcs i =
     (if melody_pcs ! (i - 1) \<in> set chord_tones \<and> melody_pcs ! (i + 1) \<in> set chord_tones \<and>
         melody_pcs ! i \<notin> set chord_tones \<and>
         is_step ((melody_pcs ! i - melody_pcs ! (i - 1)) mod 12) \<and>
         is_step ((melody_pcs ! (i + 1) - melody_pcs ! i) mod 12)
      then (if melody_pcs ! i \<in> set chord_scale_pcs
            then [(i, str ''passing_tone'')]
            else [(i, str ''chromatic_passing_tone'')])
      else [])"

definition chord_tones_v1 :: "int \<Rightarrow> int list" where
  "chord_tones_v1 chord_root_pc = map (\<lambda>x. (chord_root_pc + x) mod 12) [0, 4, 7, 11]"

definition guide_tones_v1 :: "int \<Rightarrow> int list" where
  "guide_tones_v1 chord_root_pc = [(chord_root_pc + 4) mod 12, (chord_root_pc + 11) mod 12]"

definition all_ops_v1 :: "int list \<Rightarrow> int list \<Rightarrow> int \<Rightarrow> (nat \<times> ustr) list" where
  "all_ops_v1 melody_pcs chord_scale_pcs chord_root_pc =
     concat (map (tone_ops_v1 (chord_tones_v1 chord_root_pc) (guide_tones_v1 chord_root_pc))
               (enumerate 0 melody_pcs)) @
     concat (map (scale_ops melody_pcs) [1..<length melody_pcs - 1]) @
     concat (map (neighbor_ops (chord_tones_v1 chord_root_pc) melody_pcs)
               [1..<length melody_pcs - 1]) @
     concat (map (passing_ops_v1 (chord_tones_v1 chord_root_pc) chord_scale_pcs melody_pcs)
               [1..<length melody_pcs - 1])"

section \<open>Stepwise windows\<close>

text \<open>
  The windows of the scale-line rule, written from its description: a window is three
  consecutive melody notes, named by the index \<open>i\<close> of its middle note; it is stepwise when
  the two intervals, taken modulo 12, are equal and are one of 1, 2, 10 and 11.  The window
  \<open>i\<close> contains the indices \<open>i - 1\<close>, \<open>i\<close> and \<open>i + 1\<close>.
\<close>

definition stepwise_window :: "int list \<Rightarrow> nat \<Rightarrow> bool" where
  "stepwise_window melody_pcs i \<longleftrightarrow>
     1 \<le> i \<and> i + 1 < length melody_pcs \<and>
     ((melody_pcs ! i - melody_pcs ! (i - 1)) mod 12 = 1 \<or>
      (melody_pcs ! i - melody_pcs ! (i - 1)) mod 12 = 2 \<or>
      (melody_pcs ! i - melody_pcs ! (i - 1)) mod 12 = 10 \<or>
      (melody_pcs ! i - melody_pcs ! (i - 1)) mod 12 = 11) \<and>
     (melody_pcs ! (i + 1) - melody_pcs ! i) mod 12 = (melody_pcs ! i - melody_pcs ! (i - 1)) mod 12"

definition windows_containing :: "int list \<Rightarrow> nat \<Rightarrow> nat list" where
  "windows_containing melody_pcs k =
     filter (\<lambda>i. stepwise_window melody_pcs i \<and> i \<le> k + 1 \<and> k \<le> i + 1)
       [0..<length melody_pcs]"


section \<open>Evaluation on literals\<close>

lemmas str_eval =
  str_def strip_def is_space_def replace_char_def lower_def upper_def lower_char_def
  upper_char_def flat_sign_def sharp_sign_def delta_sign_def normalize_note_def

lemma set_py_set: "set (py_set xs) = set xs"
  by (simp add: py_set_def)

section \<open>Rounding to the nearest double\<close>

lemma exponent_bounds:
  assumes "0 < x"
  shows "2 powi exponent x \<le> x \<and> x < 2 powi (exponent x + 1)"
proof (cases "1 \<le> x")
  case True
  let ?f = "\<lfloor>x\<rfloor>"
  from True have f: "0 < ?f" by simp
  from bitlen_bounds [OF f]
  have lo: "2 ^ nat (bitlen ?f - 1) \<le> ?f" and hi: "?f < 2 ^ nat (bitlen ?f)" by simp_all
  from f have b: "1 \<le> bitlen ?f"
    by (simp add: bitlen_alt_def)
  have e: "exponent x = bitlen ?f - 1"
    using True by (simp add: exponent_def)
  have "(2::rat) powi (bitlen ?f - 1) = 2 ^ nat (bitlen ?f - 1)"
    using b by (simp add: power_int_def)
  also have "\<dots> = rat_of_int (2 ^ nat (bitlen ?f - 1))" by simp
  also from lo have "\<dots> \<le> rat_of_int ?f" by (simp only: of_int_le_iff)
  also have "\<dots> \<le> x" by (rule of_int_floor_le)
  finally have 1: "2 powi exponent x \<le> x" by (simp add: e)
  from hi have "?f + 1 \<le> 2 ^ nat (bitlen ?f)" by simp
  then have "rat_of_int (?f + 1) \<le> rat_of_int (2 ^ nat (bitlen ?f))" by (simp only: of_int_le_iff)
  moreover have "x < rat_of_int (?f + 1)" using floor_correct [of x] by simp
  ultimately have "x < rat_of_int (2 ^ nat (bitlen ?f))" by (rule less_le_trans [rotated])
  also have "\<dots> = 2 powi (bitlen ?f)"
    using b by (simp add: power_int_def)
  finally have 2: "x < 2 powi (exponent x + 1)" by (simp add: e)
  from 1 2 show ?thesis ..
next
  case False
  let ?y = "1 / x"
  let ?c = "\<lceil>?y\<rceil>"
  from False assms have y: "1 < ?y" by simp
  then have c: "0 < ?c - 1" by simp
  let ?b = "bitlen (?c - 1)"
  from bitlen_bounds [OF c]
  have lo: "2 ^ nat (?b - 1) \<le> ?c - 1" and hi: "?c - 1 < 2 ^ nat ?b" by simp_all
  from c have b: "1 \<le> ?b"
    by (simp add: bitlen_alt_def)
  have e: "exponent x = - ?b"
    using False by (simp add: exponent_def)
  from hi have "?c \<le> 2 ^ nat ?b" by simp
  then have "rat_of_int ?c \<le> rat_of_int (2 ^ nat ?b)" by (simp only: of_int_le_iff)
  with le_of_int_ceiling [of ?y] have "?y \<le> rat_of_int (2 ^ nat ?b)" by (rule order_trans)
  then have "?y \<le> 2 ^ nat ?b" by simp
  with assms have "1 \<le> 2 ^ nat ?b * x"
    by (simp add: field_simps)
  then have "1 / 2 ^ nat ?b \<le> x"
    by (simp add: field_simps)
  moreover have "(2::rat) powi (- ?b) = 1 / 2 ^ nat ?b"
    using b by (simp add: power_int_def field_simps)
  ultimately have 1: "2 powi exponent x \<le> x" by (simp add: e)
  from lo have "rat_of_int (2 ^ nat (?b - 1)) \<le> rat_of_int (?c - 1)" by (simp only: of_int_le_iff)
  moreover have "rat_of_int (?c - 1) < ?y"
    using ceiling_correct [of ?y] by simp
  ultimately have "rat_of_int (2 ^ nat (?b - 1)) < ?y" by (rule le_less_trans)
  then have "2 ^ nat (?b - 1) < ?y" by simp
  with assms have "2 ^ nat (?b - 1) * x < 1"
    by (simp add: field_simps)
  then have "x < 1 / 2 ^ nat (?b - 1)"
    by (simp add: field_simps)
  moreover have "(2::rat) powi (- ?b + 1) = 1 / 2 ^ nat (?b - 1)"
  proof -
    have "- ?b + 1 = - (?b - 1)" by simp
    moreover have "(2::rat) powi (- (?b - 1)) = 1 / 2 ^ nat (?b - 1)"
      using b by (simp add: power_int_def field_simps)
    ultimately show ?thesis by simp
  qed
  ultimately have 2: "x < 2 powi (exponent x + 1)" by (simp add: e)
  from 1 2 show ?thesis ..
qed

lemma exponent_unique:
  assumes "0 < x" and "2 powi e \<le> x" and "x < 2 powi (e + 1)"
  shows "exponent x = e"
proof -
  from exponent_bounds [OF assms(1)]
  have lo: "2 powi exponent x \<le> x" and hi: "x < 2 powi (exponent x + 1)" by simp_all
  have "exponent x < e + 1"
  proof (rule ccontr)
    assume "\<not> exponent x < e + 1"
    then have "e + 1 \<le> exponent x" by simp
    then have "(2::rat) powi (e + 1) \<le> 2 powi exponent x"
      by (rule power_int_increasing) simp
    with lo assms(3) show False by simp
  qed
  moreover have "e < exponent x + 1"
  proof (rule ccontr)
    assume "\<not> e < exponent x + 1"
    then have "exponent x + 1 \<le> e" by simp
    then have "(2::rat) powi (exponent x + 1) \<le> 2 powi e"
      by (rule power_int_increasing) simp
    with hi assms(2) show False by simp
  qed
  ultimately show ?thesis by simp
qed

lemma exponent_mono:
  assumes "0 < x" and "x \<le> y"
  shows "exponent x \<le> exponent y"
proof (rule ccontr)
  assume "\<not> exponent x \<le> exponent y"
  then have "exponent y + 1 \<le> exponent x" by simp
  then have "(2::rat) powi (exponent y + 1) \<le> 2 powi exponent x"
    by (rule power_int_increasing) simp
  moreover from assms have "0 < y" by simp
  ultimately show False
    using exponent_bounds [OF assms(1)] exponent_bounds [of y] assms(2) by simp
qed

lemma round_half_even_int [simp]: "round_half_even (of_int k) = k"
  by (simp add: round_half_even_def)

lemma round_half_even_ge_floor: "\<lfloor>y\<rfloor> \<le> round_half_even y"
  by (simp add: round_half_even_def Let_def)

lemma round_half_even_le_ceiling: "round_half_even y \<le> \<lceil>y\<rceil>"
proof (cases "y = of_int \<lfloor>y\<rfloor>")
  case True
  then have "round_half_even y = \<lfloor>y\<rfloor>"
    by (metis round_half_even_int)
  then show ?thesis
    by (simp add: floor_le_ceiling)
next
  case False
  then have "\<lceil>y\<rceil> = \<lfloor>y\<rfloor> + 1"
    by (simp add: ceiling_altdef)
  then show ?thesis
    by (simp add: round_half_even_def Let_def)
qed

lemma round_half_even_lower: "of_int k \<le> y \<Longrightarrow> k \<le> round_half_even y"
  using round_half_even_ge_floor [of y] le_floor_iff [of k y] by linarith

lemma round_half_even_upper: "y \<le> of_int k \<Longrightarrow> round_half_even y \<le> k"
  using round_half_even_le_ceiling [of y] ceiling_le_iff [of y k] by linarith

lemma round_half_even_mono:
  assumes "y \<le> z"
  shows "round_half_even y \<le> round_half_even z"
proof (cases "\<lfloor>y\<rfloor> = \<lfloor>z\<rfloor>")
  case True
  with assms have "y - of_int \<lfloor>y\<rfloor> \<le> z - of_int \<lfloor>z\<rfloor>" by simp
  with True show ?thesis
    by (auto simp: round_half_even_def Let_def)
next
  case False
  with assms have "\<lfloor>y\<rfloor> + 1 \<le> \<lfloor>z\<rfloor>"
    using floor_mono [of y z] by simp
  moreover have "round_half_even y \<le> \<lfloor>y\<rfloor> + 1"
    by (simp add: round_half_even_def Let_def)
  ultimately show ?thesis
    using round_half_even_ge_floor [of z] by simp
qed

lemma pow2_add: "(2::rat) powi a * 2 powi b = 2 powi (a + b)"
  by (simp add: power_int_add)

lemma pow2_less_imp: "(2::rat) powi a < 2 powi b \<Longrightarrow> a < b"
proof (rule ccontr)
  assume l: "(2::rat) powi a < 2 powi b" and "\<not> a < b"
  then have "b \<le> a" by simp
  then have "(2::rat) powi b \<le> 2 powi a"
    by (rule power_int_increasing) simp
  with l show False by simp
qed

lemma scaled_bounds:
  assumes "0 < x"
  shows "2 ^ 52 \<le> x * 2 powi (52 - exponent x) \<and> x * 2 powi (52 - exponent x) < 2 ^ 53"
proof -
  let ?e = "exponent x"
  have p: "(0::rat) < 2 powi (52 - ?e)" by simp
  from exponent_bounds [OF assms]
  have lo: "2 powi ?e \<le> x" and hi: "x < 2 powi (?e + 1)" by simp_all
  from lo p have "2 powi ?e * 2 powi (52 - ?e) \<le> x * 2 powi (52 - ?e)"
    by (simp only: mult_le_cancel_right_pos)
  moreover have "(2::rat) powi ?e * 2 powi (52 - ?e) = 2 ^ 52"
    by (simp add: pow2_add)
  ultimately have 1: "2 ^ 52 \<le> x * 2 powi (52 - ?e)" by simp
  from hi p have "x * 2 powi (52 - ?e) < 2 powi (?e + 1) * 2 powi (52 - ?e)"
    by (simp only: mult_less_cancel_right_pos)
  moreover have "(2::rat) powi (?e + 1) * 2 powi (52 - ?e) = 2 ^ 53"
    by (simp add: pow2_add)
  ultimately have 2: "x * 2 powi (52 - ?e) < 2 ^ 53" by simp
  from 1 2 show ?thesis ..
qed

lemma significand_bounds:
  assumes "0 < x"
  shows "2 ^ 52 \<le> round_half_even (x * 2 powi (52 - exponent x)) \<and>
         round_half_even (x * 2 powi (52 - exponent x)) \<le> 2 ^ 53"
proof -
  let ?m = "x * 2 powi (52 - exponent x)"
  from scaled_bounds [OF assms] have "rat_of_int (2 ^ 52) \<le> ?m" and "?m \<le> rat_of_int (2 ^ 53)"
    by simp_all
  then show ?thesis
    using round_half_even_lower [of "2 ^ 52" ?m] round_half_even_upper [of ?m "2 ^ 53"] by blast
qed

lemma fl_pos_bounds:
  assumes "0 < x"
  shows "2 powi exponent x \<le> fl_pos x \<and> fl_pos x \<le> 2 powi (exponent x + 1)"
proof -
  let ?e = "exponent x"
  let ?r = "round_half_even (x * 2 powi (52 - ?e))"
  have p: "(0::rat) < 2 powi (?e - 52)" by simp
  have f: "fl_pos x = rat_of_int ?r * 2 powi (?e - 52)"
    by (simp add: fl_pos_def Let_def)
  from significand_bounds [OF assms]
  have "rat_of_int (2 ^ 52) \<le> rat_of_int ?r" and "rat_of_int ?r \<le> rat_of_int (2 ^ 53)"
    by (simp_all only: of_int_le_iff)
  with p have "rat_of_int (2 ^ 52) * 2 powi (?e - 52) \<le> rat_of_int ?r * 2 powi (?e - 52)"
    and "rat_of_int ?r * 2 powi (?e - 52) \<le> rat_of_int (2 ^ 53) * 2 powi (?e - 52)"
    by (simp_all only: mult_le_cancel_right_pos)
  moreover have "rat_of_int (2 ^ 52) * 2 powi (?e - 52) = 2 powi ?e"
  proof -
    have "rat_of_int (2 ^ 52) * 2 powi (?e - 52) = 2 powi 52 * 2 powi (?e - 52)" by simp
    also have "\<dots> = 2 powi (52 + (?e - 52))" by (simp only: pow2_add)
    also have "52 + (?e - 52) = ?e" by simp
    finally show ?thesis .
  qed
  moreover have "rat_of_int (2 ^ 53) * 2 powi (?e - 52) = 2 powi (?e + 1)"
  proof -
    have "rat_of_int (2 ^ 53) * 2 powi (?e - 52) = 2 powi 53 * 2 powi (?e - 52)" by simp
    also have "\<dots> = 2 powi (53 + (?e - 52))" by (simp only: pow2_add)
    also have "53 + (?e - 52) = ?e + 1" by simp
    finally show ?thesis .
  qed
  ultimately show ?thesis
    by (simp only: f)
qed

lemma fl_pos_positive: "0 < x \<Longrightarrow> 0 < fl_pos x"
proof -
  assume "0 < x"
  from fl_pos_bounds [OF this] have "2 powi exponent x \<le> fl_pos x" ..
  moreover have "(0::rat) < 2 powi exponent x" by simp
  ultimately show ?thesis by (rule less_le_trans [rotated])
qed

lemma fl_pos_mono:
  assumes "0 < x" and "x \<le> y"
  shows "fl_pos x \<le> fl_pos y"
proof -
  from assms have y: "0 < y" by simp
  from exponent_mono [OF assms] have le: "exponent x \<le> exponent y" .
  show ?thesis
  proof (cases "exponent x = exponent y")
    case True
    let ?s = "(2::rat) powi (52 - exponent y)"
    have "(0::rat) < ?s" by simp
    with assms(2) have "x * ?s \<le> y * ?s"
      by (simp only: mult_le_cancel_right_pos)
    then have "round_half_even (x * ?s) \<le> round_half_even (y * ?s)"
      by (rule round_half_even_mono)
    then have "rat_of_int (round_half_even (x * ?s)) \<le> rat_of_int (round_half_even (y * ?s))"
      by (simp only: of_int_le_iff)
    moreover have "(0::rat) < 2 powi (exponent y - 52)" by simp
    ultimately have "rat_of_int (round_half_even (x * ?s)) * 2 powi (exponent y - 52)
        \<le> rat_of_int (round_half_even (y * ?s)) * 2 powi (exponent y - 52)"
      by (simp only: mult_le_cancel_right_pos)
    then show ?thesis
      by (simp add: fl_pos_def Let_def True)
  next
    case False
    with le have "exponent x + 1 \<le> exponent y" by simp
    then have "(2::rat) powi (exponent x + 1) \<le> 2 powi exponent y"
      by (rule power_int_increasing) simp
    with fl_pos_bounds [OF assms(1)] fl_pos_bounds [OF y] show ?thesis
      by linarith
  qed
qed

lemma fl_pos_exact:
  assumes "0 < k" and "k < 2 ^ 53" and "x = rat_of_int k * 2 powi j"
  shows "fl_pos x = x"
proof -
  let ?e = "exponent x"
  from assms(1) have kp: "0 < rat_of_int k" by simp
  then have x: "0 < x"
    by (simp add: assms(3))
  from exponent_bounds [OF x] have lo: "2 powi ?e \<le> x" ..
  from assms(2) have "rat_of_int k < rat_of_int (2 ^ 53)"
    by (simp only: of_int_less_iff)
  then have "rat_of_int k < 2 powi 53" by simp
  moreover have "(0::rat) < 2 powi j" by simp
  ultimately have "rat_of_int k * 2 powi j < 2 powi 53 * 2 powi j"
    by (simp only: mult_less_cancel_right_pos)
  then have "x < 2 powi (53 + j)"
    by (simp only: assms(3) pow2_add)
  with lo have "(2::rat) powi ?e < 2 powi (53 + j)"
    by (rule le_less_trans)
  then have "?e < 53 + j" by (rule pow2_less_imp)
  then have d: "0 \<le> j + (52 - ?e)" by simp
  have "x * 2 powi (52 - ?e) = rat_of_int k * (2 powi j * 2 powi (52 - ?e))"
    by (simp add: assms(3))
  also have "\<dots> = rat_of_int k * 2 powi (j + (52 - ?e))"
    by (simp only: pow2_add)
  also have "\<dots> = rat_of_int k * 2 ^ nat (j + (52 - ?e))"
    using d by (simp add: power_int_def)
  also have "\<dots> = rat_of_int (k * 2 ^ nat (j + (52 - ?e)))"
    by simp
  finally have m: "x * 2 powi (52 - ?e) = rat_of_int (k * 2 ^ nat (j + (52 - ?e)))" .
  have "fl_pos x = rat_of_int (round_half_even (x * 2 powi (52 - ?e))) * 2 powi (?e - 52)"
    by (simp add: fl_pos_def Let_def)
  also have "\<dots> = rat_of_int (k * 2 ^ nat (j + (52 - ?e))) * 2 powi (?e - 52)"
    by (simp only: m round_half_even_int)
  also have "\<dots> = x * (2 powi (52 - ?e) * 2 powi (?e - 52))"
    by (simp only: m [symmetric] mult.assoc)
  also have "\<dots> = x"
    by (simp add: pow2_add)
  finally show ?thesis .
qed

lemma representable_fl_pos:
  assumes "0 < x"
  shows "representable (fl_pos x)"
proof -
  let ?e = "exponent x"
  let ?r = "round_half_even (x * 2 powi (52 - ?e))"
  have f: "fl_pos x = rat_of_int ?r * 2 powi (?e - 52)"
    by (simp add: fl_pos_def Let_def)
  from significand_bounds [OF assms] have lo: "2 ^ 52 \<le> ?r" and hi: "?r \<le> 2 ^ 53"
    by simp_all
  show ?thesis
  proof (cases "?r = 2 ^ 53")
    case True
    have "fl_pos x = rat_of_int (2 ^ 53) * 2 powi (?e - 52)"
      by (simp only: f True)
    also have "rat_of_int (2 ^ 53) = 2 powi 53" by simp
    also have "(2::rat) powi 53 * 2 powi (?e - 52) = 2 powi (53 + (?e - 52))"
      by (simp only: pow2_add)
    finally have "fl_pos x = 2 powi (53 + (?e - 52))" .
    then have "fl_pos x = rat_of_int 1 * 2 powi (53 + (?e - 52))"
      by (simp only: of_int_1 mult_1)
    moreover have "\<bar>1::int\<bar> < 2 ^ 53" by simp
    ultimately show ?thesis
      unfolding representable_def by blast
  next
    case False
    with lo hi have "\<bar>?r\<bar> < 2 ^ 53" by simp
    with f show ?thesis
      unfolding representable_def by blast
  qed
qed

lemma fl_minus: "fl (- x) = - fl x"
  by (simp add: fl_def)

lemma fl_exact:
  assumes "representable x"
  shows "fl x = x"
proof -
  from assms obtain k j where k: "\<bar>k\<bar> < 2 ^ 53" and x: "x = rat_of_int k * 2 powi j"
    unfolding representable_def by blast
  have p: "(0::rat) < 2 powi j" by simp
  consider (z) "k = 0" | (pos) "0 < k" | (neg) "k < 0" by linarith
  then show ?thesis
  proof cases
    case z
    with x show ?thesis by (simp add: fl_def)
  next
    case pos
    with k have "k < 2 ^ 53" by simp
    from fl_pos_exact [OF pos this x] have "fl_pos x = x" .
    moreover from pos p have "0 < x"
      by (simp add: x)
    ultimately show ?thesis by (simp add: fl_def)
  next
    case neg
    then have 1: "0 < - k" by simp
    from neg k have 2: "- k < 2 ^ 53" by simp
    have 3: "- x = rat_of_int (- k) * 2 powi j"
      by (simp add: x)
    from fl_pos_exact [OF 1 2 3] have "fl_pos (- x) = - x" .
    moreover from neg p have "x < 0"
      by (simp add: x mult_neg_pos)
    ultimately show ?thesis by (simp add: fl_def)
  qed
qed

lemma representable_minus: "representable x \<Longrightarrow> representable (- x)"
proof -
  assume "representable x"
  then obtain k j where "\<bar>k\<bar> < 2 ^ 53" and "x = rat_of_int k * 2 powi j"
    unfolding representable_def by blast
  then have "\<bar>- k\<bar> < 2 ^ 53" and "- x = rat_of_int (- k) * 2 powi j"
    by simp_all
  then show "representable (- x)"
    unfolding representable_def by blast
qed

lemma representable_zero: "representable 0"
proof -
  have "\<bar>0::int\<bar> < 2 ^ 53" and "(0::rat) = rat_of_int 0 * 2 powi 0" by simp_all
  then show ?thesis unfolding representable_def by blast
qed

lemma representable_fl: "representable (fl x)"
proof -
  consider (z) "x = 0" | (pos) "0 < x" | (neg) "x < 0" by linarith
  then show ?thesis
  proof cases
    case z
    then show ?thesis by (simp add: fl_def representable_zero)
  next
    case pos
    then show ?thesis by (simp add: fl_def representable_fl_pos)
  next
    case neg
    then have "representable (fl_pos (- x))" by (simp add: representable_fl_pos)
    then have "representable (- fl_pos (- x))" by (rule representable_minus)
    with neg show ?thesis by (simp add: fl_def)
  qed
qed

lemma fl_idem: "fl (fl x) = fl x"
  using representable_fl by (rule fl_exact)

lemma fl_nonneg: "0 \<le> x \<Longrightarrow> 0 \<le> fl x"
  using fl_pos_positive [of x] by (auto simp: fl_def less_imp_le)

lemma fl_positive: "0 < x \<Longrightarrow> 0 < fl x"
  using fl_pos_positive [of x] by (simp add: fl_def)

lemma fl_mono:
  assumes "x \<le> y"
  shows "fl x \<le> fl y"
proof -
  consider (pp) "0 < x" | (np) "x \<le> 0" "0 \<le> y" | (nn) "y < 0" using assms by linarith
  then show ?thesis
  proof cases
    case pp
    with assms have "0 < y" by simp
    with pp fl_pos_mono [OF pp assms] show ?thesis by (simp add: fl_def)
  next
    case np
    from np(1) have "0 \<le> - x" by simp
    then have "0 \<le> fl (- x)" by (rule fl_nonneg)
    then have "fl x \<le> 0" by (simp add: fl_minus)
    moreover from np(2) have "0 \<le> fl y" by (rule fl_nonneg)
    ultimately show ?thesis by simp
  next
    case nn
    with assms have x: "x < 0" by simp
    from nn have "0 < - y" by simp
    moreover from assms have "- y \<le> - x" by simp
    ultimately have "fl_pos (- y) \<le> fl_pos (- x)" by (rule fl_pos_mono)
    with nn x show ?thesis by (simp add: fl_def)
  qed
qed

lemma representable_of_int:
  assumes "\<bar>k\<bar> \<le> 2 ^ 53"
  shows "representable (rat_of_int k)"
proof (cases "\<bar>k\<bar> = 2 ^ 53")
  case True
  then consider "k = 2 ^ 53" | "k = - (2 ^ 53)" by linarith
  then show ?thesis
  proof cases
    case 1
    have "rat_of_int k = rat_of_int 1 * 2 powi 53" by (simp add: 1)
    moreover have "\<bar>1::int\<bar> < 2 ^ 53" by simp
    ultimately show ?thesis unfolding representable_def by blast
  next
    case 2
    have "rat_of_int k = rat_of_int (- 1) * 2 powi 53" by (simp add: 2)
    moreover have "\<bar>- 1::int\<bar> < 2 ^ 53" by simp
    ultimately show ?thesis unfolding representable_def by blast
  qed
next
  case False
  with assms have "\<bar>k\<bar> < 2 ^ 53" by simp
  moreover have "rat_of_int k = rat_of_int k * 2 powi 0" by simp
  ultimately show ?thesis unfolding representable_def by blast
qed

lemma representable_half:
  assumes "\<bar>k\<bar> < 2 ^ 53"
  shows "representable (rat_of_int k / 2)"
proof -
  have "rat_of_int k / 2 = rat_of_int k * 2 powi (- 1)"
    by (simp add: power_int_minus)
  with assms show ?thesis unfolding representable_def by blast
qed

lemma bitlen_one: "bitlen 1 = 1"
  by (simp add: compute_bitlen [of 1])

lemma bitlen_Bit0: "bitlen (numeral (Num.Bit0 n)) = bitlen (numeral n) + 1"
proof -
  have "(numeral (Num.Bit0 n) :: int) div 2 = numeral n" by simp
  then show ?thesis
    using compute_bitlen [of "numeral (Num.Bit0 n)"] by simp
qed

lemma bitlen_Bit1: "bitlen (numeral (Num.Bit1 n)) = bitlen (numeral n) + 1"
proof -
  have "(numeral (Num.Bit1 n) :: int) div 2 = numeral n" by simp
  then show ?thesis
    using compute_bitlen [of "numeral (Num.Bit1 n)"] by simp
qed

lemma floor_rat_numeral_div: "\<lfloor>numeral a / numeral b :: rat\<rfloor> = numeral a div numeral b"
  using floor_divide_of_int_eq [of "numeral a" "numeral b", where ?'a = rat] by simp

lemma ceiling_rat_numeral_div: "\<lceil>numeral a / numeral b :: rat\<rceil> = - (- numeral a div numeral b)"
proof -
  have "\<lceil>numeral a / numeral b :: rat\<rceil> = - \<lfloor>- (numeral a / numeral b :: rat)\<rfloor>"
    by (simp add: ceiling_def)
  also have "- (numeral a / numeral b :: rat) = rat_of_int (- numeral a) / rat_of_int (numeral b)"
    by simp
  also have "\<lfloor>rat_of_int (- numeral a) / rat_of_int (numeral b)\<rfloor> = - numeral a div numeral b"
    by (rule floor_divide_of_int_eq)
  finally show ?thesis .
qed

lemma fl_pos_unfold:
  "fl_pos x = rat_of_int (round_half_even (x * 2 powi (52 - exponent x))) * 2 powi (exponent x - 52)"
  by (simp add: fl_pos_def Let_def)

lemma round_half_even_unfold:
  "round_half_even y =
     (if y - rat_of_int \<lfloor>y\<rfloor> < 1 / 2 then \<lfloor>y\<rfloor>
      else if 1 / 2 < y - rat_of_int \<lfloor>y\<rfloor> then \<lfloor>y\<rfloor> + 1
      else if even \<lfloor>y\<rfloor> then \<lfloor>y\<rfloor> else \<lfloor>y\<rfloor> + 1)"
  by (simp add: round_half_even_def Let_def)

text \<open>
  Evaluation of closed terms: first the structure of a computation is unfolded down to
  the floating-point operations on numerals, then these are computed from the inside.
\<close>

lemmas fl_eval =
  fadd_def fsub_def fmul_def float_of_int_def int_truediv_def
  fl_def fl_pos_unfold exponent_def round_half_even_unfold
  bitlen_one bitlen_Bit0 bitlen_Bit1 floor_rat_numeral_div ceiling_rat_numeral_div

section \<open>The note table\<close>

lemma note_to_pc_absent:
  "normalize_note nm \<notin> set (map fst NOTE_TO_PC) \<Longrightarrow>
   note_to_pc nm = Inl (UnknownNoteError (normalize_note nm))"
  unfolding note_to_pc_def Let_def
  by (simp add: map_of_eq_None_iff[THEN iffD2] image_iff)

lemma note_to_pc_present:
  assumes "normalize_note nm \<in> set (map fst NOTE_TO_PC)"
  shows "\<exists>pc. note_to_pc nm = Inr pc \<and> 0 \<le> pc \<and> pc < 12"
proof -
  from assms obtain pc where m: "map_of NOTE_TO_PC (normalize_note nm) = Some pc"
    by (metis map_of_eq_None_iff not_Some_eq set_map)
  then have "(normalize_note nm, pc) \<in> set NOTE_TO_PC"
    by (rule map_of_SomeD)
  then have "0 \<le> pc \<and> pc < 12"
    by (auto simp: NOTE_TO_PC_def)
  with m show ?thesis
    by (simp add: note_to_pc_def)
qed

lemma note_table_keys_distinct: "distinct (map fst NOTE_TO_PC)"
  by (simp add: NOTE_TO_PC_def str_def)

text \<open>
  C7, as the spec states it, gives the table 17 entries.  The table of the source has 21
  keys: seven naturals, five sharps, five flats and the four names B#, Cb, E#, Fb.
\<close>

theorem note_table_not_17_entries:
  "card (set (map fst NOTE_TO_PC)) \<noteq> 17"
proof -
  have "card (set (map fst NOTE_TO_PC)) = length (map fst NOTE_TO_PC)"
    using note_table_keys_distinct by (rule distinct_card)
  then show ?thesis
    by (simp add: NOTE_TO_PC_def)
qed

text \<open>
  C7 (amended): the note table is a fixed table of 21 distinct names: the naturals, the
  sharps, the flats, and B#, Cb, E#, Fb.  The two names of each of the nine enharmonic
  pairs of the table map to the same pitch class.  A name whose normalized form is not a
  key of the table fails with \<open>UnknownNoteError\<close> carrying the normalized name, and a
  name whose normalized form is a key yields a pitch class in 0..11.
\<close>

theorem note_table_enharmonic:
  "length NOTE_TO_PC = 21 \<and> distinct (map fst NOTE_TO_PC) \<and>
   set (map fst NOTE_TO_PC) =
     str ` ({''C'', ''D'', ''E'', ''F'', ''G'', ''A'', ''B''} \<union>
            {''C#'', ''D#'', ''F#'', ''G#'', ''A#''} \<union>
            {''Db'', ''Eb'', ''Gb'', ''Ab'', ''Bb''} \<union>
            {''B#'', ''Cb'', ''E#'', ''Fb''}) \<and>
   note_to_pc (str ''B#'') = Inr 0 \<and> note_to_pc (str ''C'') = Inr 0 \<and>
   note_to_pc (str ''C#'') = Inr 1 \<and> note_to_pc (str ''Db'') = Inr 1 \<and>
   note_to_pc (str ''D#'') = Inr 3 \<and> note_to_pc (str ''Eb'') = Inr 3 \<and>
   note_to_pc (str ''E'') = Inr 4 \<and> note_to_pc (str ''Fb'') = Inr 4 \<and>
   note_to_pc (str ''E#'') = Inr 5 \<and> note_to_pc (str ''F'') = Inr 5 \<and>
   note_to_pc (str ''F#'') = Inr 6 \<and> note_to_pc (str ''Gb'') = Inr 6 \<and>
   note_to_pc (str ''G#'') = Inr 8 \<and> note_to_pc (str ''Ab'') = Inr 8 \<and>
   note_to_pc (str ''A#'') = Inr 10 \<and> note_to_pc (str ''Bb'') = Inr 10 \<and>
   note_to_pc (str ''B'') = Inr 11 \<and> note_to_pc (str ''Cb'') = Inr 11 \<and>
   (normalize_note nm \<notin> set (map fst NOTE_TO_PC) \<longrightarrow>
      note_to_pc nm = Inl (UnknownNoteError (normalize_note nm))) \<and>
   (normalize_note nm \<in> set (map fst NOTE_TO_PC) \<longrightarrow>
      (\<exists>pc. note_to_pc nm = Inr pc \<and> 0 \<le> pc \<and> pc < 12))"
proof -
  have len: "length NOTE_TO_PC = 21"
    by (simp add: NOTE_TO_PC_def)
  have keys: "set (map fst NOTE_TO_PC) =
     str ` ({''C'', ''D'', ''E'', ''F'', ''G'', ''A'', ''B''} \<union>
            {''C#'', ''D#'', ''F#'', ''G#'', ''A#''} \<union>
            {''Db'', ''Eb'', ''Gb'', ''Ab'', ''Bb''} \<union>
            {''B#'', ''Cb'', ''E#'', ''Fb''})"
    by (simp add: NOTE_TO_PC_def) blast
  have pairs:
    "note_to_pc (str ''B#'') = Inr 0 \<and> note_to_pc (str ''C'') = Inr 0 \<and>
     note_to_pc (str ''C#'') = Inr 1 \<and> note_to_pc (str ''Db'') = Inr 1 \<and>
     note_to_pc (str ''D#'') = Inr 3 \<and> note_to_pc (str ''Eb'') = Inr 3 \<and>
     note_to_pc (str ''E'') = Inr 4 \<and> note_to_pc (str ''Fb'') = Inr 4 \<and>
     note_to_pc (str ''E#'') = Inr 5 \<and> note_to_pc (str ''F'') = Inr 5 \<and>
     note_to_pc (str ''F#'') = Inr 6 \<and> note_to_pc (str ''Gb'') = Inr 6 \<and>
     note_to_pc (str ''G#'') = Inr 8 \<and> note_to_pc (str ''Ab'') = Inr 8 \<and>
     note_to_pc (str ''A#'') = Inr 10 \<and> note_to_pc (str ''Bb'') = Inr 10 \<and>
     note_to_pc (str ''B'') = Inr 11 \<and> note_to_pc (str ''Cb'') = Inr 11"
    by (simp add: note_to_pc_def NOTE_TO_PC_def str_eval)
  show ?thesis
    using len note_table_keys_distinct keys pairs note_to_pc_absent [of nm]
      note_to_pc_present [of nm]
    by blast
qed

theorem note_table_enharmonic_witness:
  "normalize_note (str ''H'') \<notin> set (map fst NOTE_TO_PC) \<and>
   note_to_pc (str ''H'') = Inl (UnknownNoteError (str ''H'')) \<and>
   normalize_note (str ''eb'') \<in> set (map fst NOTE_TO_PC) \<and>
   (\<exists>pc. note_to_pc (str ''eb'') = Inr pc \<and> 0 \<le> pc \<and> pc < 12)"
proof -
  have h: "normalize_note (str ''H'') \<notin> set (map fst NOTE_TO_PC)"
    by (simp add: NOTE_TO_PC_def str_eval)
  have n: "normalize_note (str ''H'') = str ''H''"
    by (simp add: str_eval)
  have e: "normalize_note (str ''eb'') \<in> set (map fst NOTE_TO_PC)"
    by (simp add: NOTE_TO_PC_def str_eval)
  from note_table_enharmonic [of "str ''H''"] h n
  have 1: "note_to_pc (str ''H'') = Inl (UnknownNoteError (str ''H''))"
    by simp
  from note_table_enharmonic [of "str ''eb''"] e
  have 2: "\<exists>pc. note_to_pc (str ''eb'') = Inr pc \<and> 0 \<le> pc \<and> pc < 12"
    by blast
  from h 1 e 2 show ?thesis
    by blast
qed

section \<open>Errors of the parser and of the orchestrator\<close>

lemma strip_empty_iff: "strip s = [] \<longleftrightarrow> (\<forall>c\<in>set s. is_space c)"
proof
  assume e: "strip s = []"
  then have a: "\<forall>x\<in>set (dropWhile is_space s). is_space x"
    by (simp add: strip_def dropWhile_eq_Nil_conv)
  have "dropWhile is_space s = []"
  proof (rule ccontr)
    assume n: "dropWhile is_space s \<noteq> []"
    then have "\<not> is_space (hd (dropWhile is_space s))" by (rule hd_dropWhile)
    moreover from n have "hd (dropWhile is_space s) \<in> set (dropWhile is_space s)" by simp
    ultimately show False using a by blast
  qed
  then show "\<forall>c\<in>set s. is_space c" by (simp only: dropWhile_eq_Nil_conv)
next
  assume "\<forall>c\<in>set s. is_space c"
  then have d: "dropWhile is_space s = []" by (simp add: dropWhile_eq_Nil_conv)
  show "strip s = []" unfolding strip_def d by simp
qed

lemma chord_text_empty_iff: "chord_text s = [] \<longleftrightarrow> (\<forall>c\<in>set s. is_space c)"
  by (simp add: chord_text_def replace_char_def strip_empty_iff)

lemma parse_empty: "chord_text s = [] \<Longrightarrow> parse_chord_symbol s = Inl EmptyChordError"
  by (simp add: parse_chord_symbol_def)

lemma parse_nonempty: "chord_text s \<noteq> [] \<Longrightarrow> \<exists>ch. parse_chord_symbol s = Inr ch"
  by (simp add: parse_chord_symbol_def Let_def split: prod.splits)

lemma note_to_pc_error: "note_to_pc nm = Inl e \<Longrightarrow> e = UnknownNoteError (normalize_note nm)"
  by (simp add: note_to_pc_def Let_def split: option.splits)

lemma map_err_note_error: "map_err note_to_pc ns = Inl e \<Longrightarrow> \<exists>u. e = UnknownNoteError u"
  by (induction ns arbitrary: e) (auto split: sum.splits dest: note_to_pc_error)

lemma map_err_first_unknown:
  "find (\<lambda>n. normalize_note n \<notin> set (map fst NOTE_TO_PC)) ns = Some b \<Longrightarrow>
   map_err note_to_pc ns = Inl (UnknownNoteError (normalize_note b))"
proof (induction ns)
  case Nil
  then show ?case by simp
next
  case (Cons x xs)
  show ?case
  proof (cases "normalize_note x \<in> set (map fst NOTE_TO_PC)")
    case True
    then obtain pc where "note_to_pc x = Inr pc" using note_to_pc_present by blast
    moreover from True Cons.prems have "find (\<lambda>n. normalize_note n \<notin> set (map fst NOTE_TO_PC)) xs = Some b"
      by simp
    ultimately show ?thesis using Cons.IH by simp
  next
    case False
    with Cons.prems have "x = b" by simp
    with False show ?thesis by (simp add: note_to_pc_absent)
  qed
qed

lemma map_err_not_error: "(\<And>x. f x \<noteq> Inl e) \<Longrightarrow> map_err f xs \<noteq> Inl e"
  by (induction xs) (auto split: sum.splits)

lemma note_to_pc_not_empty: "note_to_pc nm \<noteq> Inl EmptyChordError"
  by (simp add: note_to_pc_def Let_def split: option.splits)

lemma degree_not_empty: "degree_in_global_major r k \<noteq> Inl EmptyChordError"
  using note_to_pc_not_empty
  by (auto simp: degree_in_global_major_def build_major_scale_pcs_def split: sum.splits)

lemma roman_not_empty: "roman_for_degree d q \<noteq> Inl EmptyChordError"
  by (simp add: roman_for_degree_def split: option.splits)

lemma choose_not_empty: "choose_modes_21 ch pcs \<noteq> Inl EmptyChordError"
  using note_to_pc_not_empty
  by (auto simp: choose_modes_21_def Let_def split: sum.splits prod.splits list.splits)

lemma label_not_empty: "pitch_to_degree_label pc r \<noteq> Inl EmptyChordError"
  by (simp add: pitch_to_degree_label_def Let_def split: option.splits)

lemma analyze_error_kinds:
  assumes "chord_text s \<noteq> []"
  shows "analyze_chord_and_melody s ns k \<noteq> Inl EmptyChordError"
proof -
  from assms obtain ch where p: "parse_chord_symbol s = Inr ch" using parse_nonempty by blast
  have m: "\<And>xs. map_err note_to_pc xs \<noteq> Inl EmptyChordError"
    by (rule map_err_not_error) (rule note_to_pc_not_empty)
  have l: "\<And>r xs. map_err (\<lambda>pc. pitch_to_degree_label pc r) xs \<noteq> Inl EmptyChordError"
    by (rule map_err_not_error) (rule label_not_empty)
  show ?thesis
    using p m l note_to_pc_not_empty degree_not_empty roman_not_empty choose_not_empty
    by (auto simp: analyze_chord_and_melody_def split: sum.splits)
qed

lemma analyze_empty: "chord_text s = [] \<Longrightarrow> analyze_chord_and_melody s ns k = Inl EmptyChordError"
  by (simp add: analyze_chord_and_melody_def parse_empty)

lemma analyze_first_unknown:
  assumes "chord_text symb \<noteq> []"
    and "find (\<lambda>n. normalize_note n \<notin> set (map fst NOTE_TO_PC)) notes = Some b"
  shows "analyze_chord_and_melody symb notes key = Inl (UnknownNoteError (normalize_note b))"
proof -
  from assms(1) obtain ch where "parse_chord_symbol symb = Inr ch"
    using parse_nonempty by blast
  then show ?thesis
    using map_err_first_unknown [OF assms(2)] by (simp add: analyze_chord_and_melody_def)
qed

text \<open>
  C6: the chord parser fails with \<open>EmptyChordError\<close> exactly when the symbol is empty
  after stripping whitespace and mapping the accidentals, that is, when every character
  of it is whitespace; the orchestrator passes the error on unchanged.  A symbol that is
  not empty after normalization is parsed without error, and the orchestrator never
  reports \<open>EmptyChordError\<close> for it.
\<close>

theorem parse_chord_symbol_empty_error:
  "(chord_text symb = [] \<longleftrightarrow> (\<forall>c\<in>set symb. is_space c)) \<and>
   (chord_text symb = [] \<longrightarrow>
      parse_chord_symbol symb = Inl EmptyChordError \<and>
      analyze_chord_and_melody symb notes key = Inl EmptyChordError) \<and>
   (chord_text symb \<noteq> [] \<longrightarrow>
      (\<exists>ch. parse_chord_symbol symb = Inr ch) \<and>
      analyze_chord_and_melody symb notes key \<noteq> Inl EmptyChordError)"
  using chord_text_empty_iff [of symb] parse_empty [of symb] analyze_empty [of symb "notes" "key"]
    parse_nonempty [of symb] analyze_error_kinds [of symb "notes" "key"]
  by blast

theorem parse_chord_symbol_empty_error_witness:
  "chord_text [32, 9] = [] \<and> is_space 32 \<and> is_space 9 \<and>
   parse_chord_symbol [32, 9] = Inl EmptyChordError \<and>
   analyze_chord_and_melody [32, 9] [str ''C''] (str ''C'') = Inl EmptyChordError \<and>
   chord_text (str ''C'') \<noteq> [] \<and> (\<exists>ch. parse_chord_symbol (str ''C'') = Inr ch) \<and>
   analyze_chord_and_melody (str ''C'') [str ''C''] (str ''C'') \<noteq> Inl EmptyChordError"
proof -
  have e: "chord_text [32, 9] = []"
    by (simp add: chord_text_def str_eval)
  have s: "is_space 32 \<and> is_space 9"
    by (simp add: is_space_def)
  have n: "chord_text (str ''C'') \<noteq> []"
    by (simp add: chord_text_def str_eval)
  from e s n parse_chord_symbol_empty_error [of "[32, 9]" "[str ''C'']" "str ''C''"]
    parse_chord_symbol_empty_error [of "str ''C''" "[str ''C'']" "str ''C''"]
  show ?thesis by blast
qed

text \<open>
  C5, as the spec states it, covers every chord symbol.  With an empty chord symbol the
  parser runs first and the call fails with \<open>EmptyChordError\<close>, whatever the melody.
\<close>

theorem analyze_empty_chord_unknown_note:
  "normalize_note (str ''H'') \<notin> set (map fst NOTE_TO_PC) \<and>
   analyze_chord_and_melody [] [str ''H''] (str ''C'') = Inl EmptyChordError"
proof -
  have "chord_text [] = []"
    by (simp add: chord_text_def str_eval)
  then have "analyze_chord_and_melody [] [str ''H''] (str ''C'') = Inl EmptyChordError"
    by (rule analyze_empty)
  moreover have "normalize_note (str ''H'') \<notin> set (map fst NOTE_TO_PC)"
    by (simp add: NOTE_TO_PC_def str_eval)
  ultimately show ?thesis by blast
qed

text \<open>
  C5 (amended): for every chord symbol that is not empty after normalization and every
  key, if some melody note name does not normalize to a key of the note table, the
  analysis fails with \<open>UnknownNoteError\<close> carrying the normalized form of the first
  such name, and returns no result.  In particular the analysis of chord C with melody
  H in key C fails with \<open>UnknownNoteError\<close> naming H.
\<close>

theorem analyze_unknown_note:
  "(chord_text symb \<noteq> [] \<and>
    find (\<lambda>n. normalize_note n \<notin> set (map fst NOTE_TO_PC)) notes = Some b \<longrightarrow>
    analyze_chord_and_melody symb notes key = Inl (UnknownNoteError (normalize_note b))) \<and>
   analyze_chord_and_melody (str ''C'') [str ''H''] (str ''C'') = Inl (UnknownNoteError (str ''H''))"
proof -
  have c: "chord_text (str ''C'') \<noteq> []"
    by (simp add: chord_text_def str_eval)
  have f: "find (\<lambda>n. normalize_note n \<notin> set (map fst NOTE_TO_PC)) [str ''H''] = Some (str ''H'')"
    by (simp add: NOTE_TO_PC_def str_eval)
  have n: "normalize_note (str ''H'') = str ''H''"
    by (simp add: str_eval)
  from analyze_first_unknown [OF c f, of "str ''C''"] n
  have "analyze_chord_and_melody (str ''C'') [str ''H''] (str ''C'') = Inl (UnknownNoteError (str ''H''))"
    by simp
  then show ?thesis
    using analyze_first_unknown [of symb "notes" b "key"] by blast
qed

theorem analyze_unknown_note_witness:
  "chord_text (str ''G7'') \<noteq> [] \<and>
   find (\<lambda>n. normalize_note n \<notin> set (map fst NOTE_TO_PC)) [str ''F#'', str ''X'', str ''H'']
     = Some (str ''X'') \<and>
   analyze_chord_and_melody (str ''G7'') [str ''F#'', str ''X'', str ''H''] (str ''Q'')
     = Inl (UnknownNoteError (str ''X''))"
proof -
  have c: "chord_text (str ''G7'') \<noteq> []"
    by (simp add: chord_text_def str_eval)
  have f: "find (\<lambda>n. normalize_note n \<notin> set (map fst NOTE_TO_PC)) [str ''F#'', str ''X'', str ''H'']
     = Some (str ''X'')"
    by (simp add: NOTE_TO_PC_def str_eval)
  have n: "normalize_note (str ''X'') = str ''X''"
    by (simp add: str_eval)
  from c f n analyze_unknown_note [of "str ''G7''" "[str ''F#'', str ''X'', str ''H'']" "str ''X''" "str ''Q''"]
  show ?thesis by simp
qed

section \<open>The melody function classifier\<close>

lemma length_append_label [simp]: "length (append_label i l L) = length L"
  by (simp add: append_label_def)

lemma nth_append_label:
  "k < length L \<Longrightarrow> append_label i l L ! k = (if i = k then L ! k @ [l] else L ! k)"
  by (simp add: append_label_def nth_list_update)

lemma apply_appends_Nil [simp]: "apply_appends [] L = L"
  by (simp add: apply_appends_def)

lemma apply_appends_Cons [simp]:
  "apply_appends ((i, l) # ops) L = apply_appends ops (append_label i l L)"
  by (simp add: apply_appends_def)

lemma apply_appends_append: "apply_appends (xs @ ys) L = apply_appends ys (apply_appends xs L)"
  by (simp add: apply_appends_def)

lemma length_apply_appends [simp]: "length (apply_appends ops L) = length L"
  by (induction ops arbitrary: L) auto

lemma nth_apply_appends:
  "k < length L \<Longrightarrow> apply_appends ops L ! k = L ! k @ map snd (filter (\<lambda>p. fst p = k) ops)"
proof (induction ops arbitrary: L)
  case Nil
  then show ?case by simp
next
  case (Cons p ops)
  obtain i l where p: "p = (i, l)" by (cases p)
  from Cons.prems have "k < length (append_label i l L)" by simp
  from Cons.IH [OF this] Cons.prems show ?case
    by (simp add: p nth_append_label)
qed

lemma fold_as_appends:
  assumes "\<And>x L. step x L = apply_appends (ops x) L"
  shows "fold step xs L = apply_appends (concat (map ops xs)) L"
  by (induction xs arbitrary: L) (simp_all add: assms apply_appends_append)

lemma tone_step_ops: "tone_step c g ip L = apply_appends (tone_ops c g ip) L"
  by (cases ip) (simp add: tone_step_def tone_ops_def)

lemma scale_step_ops: "scale_step m i L = apply_appends (scale_ops m i) L"
  by (simp add: scale_step_def scale_ops_def Let_def)

lemma neighbor_step_ops: "neighbor_step c m i L = apply_appends (neighbor_ops c m i) L"
  by (auto simp: neighbor_step_def neighbor_ops_def Let_def)

lemma passing_step_ops: "passing_step c m i L = apply_appends (passing_ops c m i) L"
  by (auto simp: passing_step_def passing_ops_def Let_def is_step_def)

lemma analyze_melody_functions_ops:
  "analyze_melody_functions m r q = apply_appends (all_ops m r q) (replicate (length m) [])"
  unfolding analyze_melody_functions_def Let_def all_ops_def apply_appends_append
  by (simp only: fold_as_appends [of "tone_step _ _", OF tone_step_ops]
      fold_as_appends [of "scale_step _", OF scale_step_ops]
      fold_as_appends [of "neighbor_step _ _", OF neighbor_step_ops]
      fold_as_appends [of "passing_step _ _", OF passing_step_ops])

lemma length_analyze_melody_functions: "length (analyze_melody_functions m r q) = length m"
  by (simp add: analyze_melody_functions_ops)

lemma nth_analyze_melody_functions:
  "k < length m \<Longrightarrow>
   analyze_melody_functions m r q ! k = map snd (filter (\<lambda>p. fst p = k) (all_ops m r q))"
  by (simp add: analyze_melody_functions_ops nth_apply_appends)

lemma count_filter_index:
  "count_list (map snd (filter (\<lambda>p. fst p = k) ops)) l = count_list ops (k, l)"
  by (induction ops) (auto simp: prod_eq_iff)

lemma count_list_concat_map:
  "count_list (concat (map f xs)) a = sum_list (map (\<lambda>x. count_list (f x) a) xs)"
  by (induction xs) simp_all

lemma count_concat_bound:
  assumes "distinct xs" and "finite S"
    and "\<forall>x\<in>set xs. count_list (f x) a \<le> (if x \<in> S then 1 else 0)"
  shows "count_list (concat (map f xs)) a \<le> card S"
  using assms
proof (induction xs arbitrary: S)
  case Nil
  then show ?case by simp
next
  case (Cons x xs)
  have rest: "\<forall>y\<in>set xs. count_list (f y) a \<le> (if y \<in> S - {x} then 1 else 0)"
  proof
    fix y
    assume y: "y \<in> set xs"
    with Cons.prems(1) have "y \<noteq> x" by auto
    moreover from y Cons.prems(3) have "count_list (f y) a \<le> (if y \<in> S then 1 else 0)"
      by simp
    ultimately show "count_list (f y) a \<le> (if y \<in> S - {x} then 1 else 0)"
      by simp
  qed
  from Cons.prems(1) have d: "distinct xs" by simp
  from Cons.prems(2) have f: "finite (S - {x})" by simp
  from Cons.IH [OF d f rest] have ih: "count_list (concat (map f xs)) a \<le> card (S - {x})" .
  have hd: "count_list (f x) a \<le> (if x \<in> S then 1 else 0)"
    using Cons.prems(3) by simp
  show ?case
  proof (cases "x \<in> S")
    case True
    from Cons.prems(2) True have "card S = Suc (card (S - {x}))"
      by (rule card.remove)
    moreover from True hd have "count_list (f x) a \<le> 1" by simp
    ultimately show ?thesis using ih by simp
  next
    case False
    with hd have "count_list (f x) a = 0" by simp
    moreover from False have "S - {x} = S" by simp
    ultimately show ?thesis using ih by simp
  qed
qed

lemma count_concat_zero:
  assumes "\<forall>x\<in>set xs. a \<notin> set (f x)"
  shows "count_list (concat (map f xs)) a = 0"
  using assms by (induction xs) simp_all

lemma label_names_distinct:
  "distinct [str ''guide_tone'', str ''chord_tone'', str ''scale_line'', str ''upper_neighbor'',
             str ''lower_neighbor'', str ''chromatic_passing_tone'', str ''passing_tone'']"
  by (simp add: str_def)

lemma tone_ops_shape:
  "tone_ops c g (i, pc) = [] \<or> tone_ops c g (i, pc) = [(i, str ''guide_tone'')] \<or>
   tone_ops c g (i, pc) = [(i, str ''chord_tone'')] \<or>
   tone_ops c g (i, pc) = [(i, str ''guide_tone''), (i, str ''chord_tone'')]"
  by (simp add: tone_ops_def)

lemma scale_ops_shape:
  "scale_ops m i = [] \<or>
   scale_ops m i = [(i - 1, str ''scale_line''), (i, str ''scale_line''), (i + 1, str ''scale_line'')]"
  by (simp add: scale_ops_def)

lemma neighbor_ops_shape:
  "neighbor_ops c m i = [] \<or> neighbor_ops c m i = [(i, str ''upper_neighbor'')] \<or>
   neighbor_ops c m i = [(i, str ''lower_neighbor'')]"
  by (simp add: neighbor_ops_def)

lemma passing_ops_shape:
  "passing_ops c m i = [] \<or> passing_ops c m i = [(i, str ''chromatic_passing_tone'')] \<or>
   passing_ops c m i = [(i, str ''passing_tone'')]"
  by (simp add: passing_ops_def)

lemma guide_neq_chord: "str ''guide_tone'' \<noteq> str ''chord_tone''"
  by (simp add: str_def)

lemma tone_ops_count:
  "count_list (tone_ops c g (i, pc)) (k, l) \<le> (if i = k then 1 else 0)"
  using tone_ops_shape [of c g i pc] guide_neq_chord by auto

lemma tone_ops_labels:
  "(k, l) \<in> set (tone_ops c g ip) \<Longrightarrow> l = str ''guide_tone'' \<or> l = str ''chord_tone''"
  using tone_ops_shape [of c g "fst ip" "snd ip"] by auto

lemma scale_ops_count:
  "1 \<le> i \<Longrightarrow> count_list (scale_ops m i) (k, l) \<le> (if i \<in> {k - 1, k, k + 1} then 1 else 0)"
  using scale_ops_shape [of m i] by auto

lemma scale_ops_labels: "(k, l) \<in> set (scale_ops m i) \<Longrightarrow> l = str ''scale_line''"
  using scale_ops_shape [of m i] by auto

lemma neighbor_ops_count:
  "count_list (neighbor_ops c m i) (k, l) \<le> (if i \<in> {k} then 1 else 0)"
  using neighbor_ops_shape [of c m i] by auto

lemma neighbor_ops_labels:
  "(k, l) \<in> set (neighbor_ops c m i) \<Longrightarrow> l = str ''upper_neighbor'' \<or> l = str ''lower_neighbor''"
  using neighbor_ops_shape [of c m i] by auto

lemma passing_ops_count:
  "count_list (passing_ops c m i) (k, l) \<le> (if i \<in> {k} then 1 else 0)"
  using passing_ops_shape [of c m i] by auto

lemma passing_ops_labels:
  "(k, l) \<in> set (passing_ops c m i) \<Longrightarrow>
   l = str ''chromatic_passing_tone'' \<or> l = str ''passing_tone''"
  using passing_ops_shape [of c m i] by auto

lemma tone_count:
  "count_list (concat (map (tone_ops c g) (enumerate 0 m))) (k, l)
     \<le> (if l = str ''guide_tone'' \<or> l = str ''chord_tone'' then 1 else 0)"
proof (cases "l = str ''guide_tone'' \<or> l = str ''chord_tone''")
  case True
  have "count_list (concat (map (tone_ops c g) (enumerate 0 m))) (k, l) \<le> card {(k, m ! k)}"
  proof (rule count_concat_bound)
    show "distinct (enumerate 0 m)" by (rule distinct_enumerate)
    show "finite {(k, m ! k)}" by simp
    show "\<forall>x\<in>set (enumerate 0 m).
            count_list (tone_ops c g x) (k, l) \<le> (if x \<in> {(k, m ! k)} then 1 else 0)"
    proof
      fix x
      assume x: "x \<in> set (enumerate 0 m)"
      obtain i pc where ip: "x = (i, pc)" by (cases x)
      from x ip have "pc = m ! i" by (simp add: in_set_enumerate_eq)
      with ip tone_ops_count [of c g i pc k l]
      show "count_list (tone_ops c g x) (k, l) \<le> (if x \<in> {(k, m ! k)} then 1 else 0)"
        by (simp split: if_splits)
    qed
  qed
  with True show ?thesis by simp
next
  case False
  have "count_list (concat (map (tone_ops c g) (enumerate 0 m))) (k, l) = 0"
    by (rule count_concat_zero) (use False tone_ops_labels in blast)
  then show ?thesis by simp
qed

lemma scale_count_other:
  "l \<noteq> str ''scale_line'' \<Longrightarrow> count_list (concat (map (scale_ops m) [1..<n])) (k, l) = 0"
  by (rule count_concat_zero) (use scale_ops_labels in blast)

lemma window_index_count:
  "1 \<le> (i::nat) \<Longrightarrow>
   count_list [(i - 1, l), (i, l), (i + 1, l)] (k, l) = (if i \<le> k + 1 \<and> k \<le> i + 1 then 1 else (0::nat))"
  by auto

lemma scale_ops_count_exact:
  assumes "1 \<le> i"
  shows "count_list (scale_ops m i) (k, str ''scale_line'') =
     (if ((m ! i - m ! (i - 1)) mod 12 = 1 \<or> (m ! i - m ! (i - 1)) mod 12 = 2 \<or>
          (m ! i - m ! (i - 1)) mod 12 = 10 \<or> (m ! i - m ! (i - 1)) mod 12 = 11) \<and>
         (m ! (i + 1) - m ! i) mod 12 = (m ! i - m ! (i - 1)) mod 12 \<and>
         i \<le> k + 1 \<and> k \<le> i + 1
      then 1 else 0)"
proof -
  define d1 where "d1 = (m ! i - m ! (i - 1)) mod 12"
  define d2 where "d2 = (m ! (i + 1) - m ! i) mod 12"
  have s: "scale_ops m i =
      (if (d1 = 1 \<or> d1 = 2 \<or> d1 = 10 \<or> d1 = 11) \<and> d2 = d1
       then [(i - 1, str ''scale_line''), (i, str ''scale_line''), (i + 1, str ''scale_line'')]
       else [])"
    unfolding scale_ops_def is_step_def d1_def d2_def by (rule refl)
  have "count_list (scale_ops m i) (k, str ''scale_line'') =
     (if (d1 = 1 \<or> d1 = 2 \<or> d1 = 10 \<or> d1 = 11) \<and> d2 = d1 \<and> i \<le> k + 1 \<and> k \<le> i + 1
      then 1 else 0)"
  proof (cases "(d1 = 1 \<or> d1 = 2 \<or> d1 = 10 \<or> d1 = 11) \<and> d2 = d1")
    case True
    then have "scale_ops m i =
        [(i - 1, str ''scale_line''), (i, str ''scale_line''), (i + 1, str ''scale_line'')]"
      by (simp add: s)
    then have "count_list (scale_ops m i) (k, str ''scale_line'') =
        (if i \<le> k + 1 \<and> k \<le> i + 1 then 1 else 0)"
      by (simp only: window_index_count [OF assms])
    with True show ?thesis by presburger
  next
    case False
    then have "scale_ops m i = []"
      by (simp add: s)
    then have "count_list (scale_ops m i) (k, str ''scale_line'') = 0"
      by simp
    with False show ?thesis by presburger
  qed
  then show ?thesis
    unfolding d1_def d2_def .
qed

lemma sum_list_indicator:
  "sum_list (map (\<lambda>x. if P x then 1 else 0) xs) = length (filter P xs)"
  by (induction xs) simp_all

lemma scale_count_windows:
  "count_list (concat (map (scale_ops m) [1..<length m - 1])) (k, str ''scale_line'') =
     length (windows_containing m k)"
proof -
  let ?Q = "\<lambda>i. ((m ! i - m ! (i - 1)) mod 12 = 1 \<or> (m ! i - m ! (i - 1)) mod 12 = 2 \<or>
                  (m ! i - m ! (i - 1)) mod 12 = 10 \<or> (m ! i - m ! (i - 1)) mod 12 = 11) \<and>
                 (m ! (i + 1) - m ! i) mod 12 = (m ! i - m ! (i - 1)) mod 12 \<and>
                 i \<le> k + 1 \<and> k \<le> i + 1"
  let ?W = "\<lambda>i. stepwise_window m i \<and> i \<le> k + 1 \<and> k \<le> i + 1"
  have "count_list (concat (map (scale_ops m) [1..<length m - 1])) (k, str ''scale_line'') =
          sum_list (map (\<lambda>i. count_list (scale_ops m i) (k, str ''scale_line'')) [1..<length m - 1])"
    by (rule count_list_concat_map)
  also have "map (\<lambda>i. count_list (scale_ops m i) (k, str ''scale_line'')) [1..<length m - 1] =
               map (\<lambda>i. if ?Q i then 1 else 0) [1..<length m - 1]"
  proof (rule map_cong [OF refl])
    fix i
    assume "i \<in> set [1..<length m - 1]"
    then have "1 \<le> i" by simp
    then show "count_list (scale_ops m i) (k, str ''scale_line'') = (if ?Q i then 1 else 0)"
      by (rule scale_ops_count_exact)
  qed
  also have "sum_list (map (\<lambda>i. if ?Q i then 1 else 0) [1..<length m - 1]) =
               length (filter ?Q [1..<length m - 1])"
    by (rule sum_list_indicator)
  also have "\<dots> = card ({i. ?Q i} \<inter> set [1..<length m - 1])"
    by (rule distinct_length_filter) simp
  also have "{i. ?Q i} \<inter> set [1..<length m - 1] = {i. ?W i} \<inter> set [0..<length m]"
    unfolding stepwise_window_def by auto
  also have "card ({i. ?W i} \<inter> set [0..<length m]) = length (filter ?W [0..<length m])"
    by (rule distinct_length_filter [symmetric]) simp
  finally show ?thesis
    by (simp only: windows_containing_def)
qed

lemma windows_containing_le_3: "length (windows_containing m k) \<le> 3"
proof -
  let ?W = "\<lambda>i. stepwise_window m i \<and> i \<le> k + 1 \<and> k \<le> i + 1"
  have "length (windows_containing m k) = card ({i. ?W i} \<inter> set [0..<length m])"
    unfolding windows_containing_def by (rule distinct_length_filter) simp
  also have "\<dots> \<le> card {k - 1, k, k + 1}"
    by (rule card_mono) auto
  also have "\<dots> \<le> 3"
    by (simp add: card_insert_if)
  finally show ?thesis .
qed

lemma neighbor_count:
  "count_list (concat (map (neighbor_ops c m) [1..<n])) (k, l)
     \<le> (if l = str ''upper_neighbor'' \<or> l = str ''lower_neighbor'' then 1 else 0)"
proof (cases "l = str ''upper_neighbor'' \<or> l = str ''lower_neighbor''")
  case True
  have "count_list (concat (map (neighbor_ops c m) [1..<n])) (k, l) \<le> card {k}"
  proof (rule count_concat_bound)
    show "distinct [1..<n]" by simp
    show "finite {k}" by simp
    show "\<forall>x\<in>set [1..<n].
            count_list (neighbor_ops c m x) (k, l) \<le> (if x \<in> {k} then 1 else 0)"
      using neighbor_ops_count by blast
  qed
  with True show ?thesis by simp
next
  case False
  have "count_list (concat (map (neighbor_ops c m) [1..<n])) (k, l) = 0"
    by (rule count_concat_zero) (use False neighbor_ops_labels in blast)
  then show ?thesis by simp
qed

lemma passing_count:
  "count_list (concat (map (passing_ops c m) [1..<n])) (k, l)
     \<le> (if l = str ''chromatic_passing_tone'' \<or> l = str ''passing_tone'' then 1 else 0)"
proof (cases "l = str ''chromatic_passing_tone'' \<or> l = str ''passing_tone''")
  case True
  have "count_list (concat (map (passing_ops c m) [1..<n])) (k, l) \<le> card {k}"
  proof (rule count_concat_bound)
    show "distinct [1..<n]" by simp
    show "finite {k}" by simp
    show "\<forall>x\<in>set [1..<n].
            count_list (passing_ops c m x) (k, l) \<le> (if x \<in> {k} then 1 else 0)"
      using passing_ops_count by blast
  qed
  with True show ?thesis by simp
next
  case False
  have "count_list (concat (map (passing_ops c m) [1..<n])) (k, l) = 0"
    by (rule count_concat_zero) (use False passing_ops_labels in blast)
  then show ?thesis by simp
qed

lemma label_sections:
  fixes A B C D :: nat
  assumes "A \<le> (if l = str ''guide_tone'' \<or> l = str ''chord_tone'' then 1 else 0)"
    and "l \<noteq> str ''scale_line'' \<Longrightarrow> B = 0"
    and "C \<le> (if l = str ''upper_neighbor'' \<or> l = str ''lower_neighbor'' then 1 else 0)"
    and "D \<le> (if l = str ''chromatic_passing_tone'' \<or> l = str ''passing_tone'' then 1 else 0)"
  shows "(l = str ''scale_line'' \<longrightarrow> A + B + C + D = B) \<and>
         (l \<noteq> str ''scale_line'' \<longrightarrow> A + B + C + D \<le> 1)"
proof -
  have d: "str ''guide_tone'' \<noteq> str ''scale_line''" "str ''chord_tone'' \<noteq> str ''scale_line''"
    "str ''upper_neighbor'' \<noteq> str ''scale_line''" "str ''lower_neighbor'' \<noteq> str ''scale_line''"
    "str ''chromatic_passing_tone'' \<noteq> str ''scale_line''" "str ''passing_tone'' \<noteq> str ''scale_line''"
    "str ''guide_tone'' \<noteq> str ''upper_neighbor''" "str ''guide_tone'' \<noteq> str ''lower_neighbor''"
    "str ''guide_tone'' \<noteq> str ''chromatic_passing_tone''" "str ''guide_tone'' \<noteq> str ''passing_tone''"
    "str ''chord_tone'' \<noteq> str ''upper_neighbor''" "str ''chord_tone'' \<noteq> str ''lower_neighbor''"
    "str ''chord_tone'' \<noteq> str ''chromatic_passing_tone''" "str ''chord_tone'' \<noteq> str ''passing_tone''"
    "str ''upper_neighbor'' \<noteq> str ''chromatic_passing_tone''"
    "str ''upper_neighbor'' \<noteq> str ''passing_tone''"
    "str ''lower_neighbor'' \<noteq> str ''chromatic_passing_tone''"
    "str ''lower_neighbor'' \<noteq> str ''passing_tone''"
    by (simp_all add: str_def)
  consider (t) "l = str ''guide_tone'' \<or> l = str ''chord_tone''"
    | (n) "l = str ''upper_neighbor'' \<or> l = str ''lower_neighbor''"
    | (p) "l = str ''chromatic_passing_tone'' \<or> l = str ''passing_tone''"
    | (s) "l = str ''scale_line''"
    | (o) "l \<noteq> str ''scale_line''" "l \<noteq> str ''guide_tone''" "l \<noteq> str ''chord_tone''"
          "l \<noteq> str ''upper_neighbor''" "l \<noteq> str ''lower_neighbor''"
          "l \<noteq> str ''chromatic_passing_tone''" "l \<noteq> str ''passing_tone''"
    by blast
  then show ?thesis
  proof cases
    case t
    with d have "l \<noteq> str ''scale_line''" "\<not> (l = str ''upper_neighbor'' \<or> l = str ''lower_neighbor'')"
      "\<not> (l = str ''chromatic_passing_tone'' \<or> l = str ''passing_tone'')"
      by auto
    with assms have "A \<le> 1" "B = 0" "C = 0" "D = 0" "l \<noteq> str ''scale_line''"
      by (simp_all split: if_splits)
    then show ?thesis by simp
  next
    case n
    with d have "l \<noteq> str ''scale_line''" "\<not> (l = str ''guide_tone'' \<or> l = str ''chord_tone'')"
      "\<not> (l = str ''chromatic_passing_tone'' \<or> l = str ''passing_tone'')"
      by auto
    with assms have "A = 0" "B = 0" "C \<le> 1" "D = 0" "l \<noteq> str ''scale_line''"
      by (simp_all split: if_splits)
    then show ?thesis by simp
  next
    case p
    with d have "l \<noteq> str ''scale_line''" "\<not> (l = str ''guide_tone'' \<or> l = str ''chord_tone'')"
      "\<not> (l = str ''upper_neighbor'' \<or> l = str ''lower_neighbor'')"
      by auto
    with assms have "A = 0" "B = 0" "C = 0" "D \<le> 1" "l \<noteq> str ''scale_line''"
      by (simp_all split: if_splits)
    then show ?thesis by simp
  next
    case s
    with d have "\<not> (l = str ''guide_tone'' \<or> l = str ''chord_tone'')"
      "\<not> (l = str ''upper_neighbor'' \<or> l = str ''lower_neighbor'')"
      "\<not> (l = str ''chromatic_passing_tone'' \<or> l = str ''passing_tone'')"
      by auto
    with assms have "A = 0" "C = 0" "D = 0"
      by simp_all
    with s show ?thesis by simp
  next
    case o
    with assms have "A = 0" "B = 0" "C = 0" "D = 0"
      by simp_all
    with o(1) show ?thesis by simp
  qed
qed

lemma all_ops_count:
  "(l = str ''scale_line'' \<longrightarrow>
      count_list (all_ops m r q) (k, l) = length (windows_containing m k)) \<and>
   (l \<noteq> str ''scale_line'' \<longrightarrow> count_list (all_ops m r q) (k, l) \<le> 1)"
proof -
  let ?n = "length m - 1"
  let ?c = "chord_tone_set q r" and ?g = "guide_tone_set q r"
  let ?A = "count_list (concat (map (tone_ops ?c ?g) (enumerate 0 m))) (k, l)"
  let ?B = "count_list (concat (map (scale_ops m) [1..<?n])) (k, l)"
  let ?C = "count_list (concat (map (neighbor_ops ?c m) [1..<?n])) (k, l)"
  let ?D = "count_list (concat (map (passing_ops ?c m) [1..<?n])) (k, l)"
  have eq: "count_list (all_ops m r q) (k, l) = ?A + ?B + ?C + ?D"
    by (simp add: all_ops_def)
  have "(l = str ''scale_line'' \<longrightarrow> ?A + ?B + ?C + ?D = ?B) \<and>
        (l \<noteq> str ''scale_line'' \<longrightarrow> ?A + ?B + ?C + ?D \<le> 1)"
    by (rule label_sections [OF tone_count _ neighbor_count passing_count])
      (rule scale_count_other)
  with eq scale_count_windows [of m k] show ?thesis
    by auto
qed

lemma tone_ops_guide:
  assumes "(k, str ''guide_tone'') \<in> set (all_ops m r q)"
  shows "k < length m \<and> m ! k \<in> set (guide_tone_set q r)"
proof -
  have d: "str ''guide_tone'' \<noteq> str ''scale_line''" "str ''guide_tone'' \<noteq> str ''upper_neighbor''"
    "str ''guide_tone'' \<noteq> str ''lower_neighbor''" "str ''guide_tone'' \<noteq> str ''chromatic_passing_tone''"
    "str ''guide_tone'' \<noteq> str ''passing_tone''"
    using label_names_distinct by simp_all
  from assms
  have "(k, str ''guide_tone'') \<in>
          set (concat (map (tone_ops (chord_tone_set q r) (guide_tone_set q r)) (enumerate 0 m)))"
    unfolding all_ops_def set_append Un_iff set_concat
    using d scale_ops_labels neighbor_ops_labels passing_ops_labels by fastforce
  then obtain ip where ip: "ip \<in> set (enumerate 0 m)"
    and mem: "(k, str ''guide_tone'') \<in> set (tone_ops (chord_tone_set q r) (guide_tone_set q r) ip)"
    by auto
  from mem guide_neq_chord have "fst ip = k \<and> snd ip \<in> set (guide_tone_set q r)"
    by (auto simp: tone_ops_def split: if_splits)
  with ip show ?thesis
    by (auto simp: in_set_enumerate_eq)
qed

lemma tone_ops_chord:
  assumes "k < length m" and "m ! k \<in> set (chord_tone_set q r)"
  shows "(k, str ''chord_tone'') \<in> set (all_ops m r q)"
proof -
  from assms(1) have "(k, m ! k) \<in> set (enumerate 0 m)"
    by (simp add: in_set_enumerate_eq)
  moreover from assms(2)
  have "(k, str ''chord_tone'') \<in> set (tone_ops (chord_tone_set q r) (guide_tone_set q r) (k, m ! k))"
    by (simp add: tone_ops_def)
  ultimately show ?thesis
    unfolding all_ops_def by (auto intro!: bexI)
qed

lemma guide_subset_chord: "set (guide_tone_set q r) \<subseteq> set (chord_tone_set q r)"
  by (simp add: guide_tone_set_def chord_tone_set_def set_py_set)

text \<open>
  C10: for every chord quality (the classifier treats every quality other than \<open>maj\<close>
  and \<open>min\<close> as dominant) the guide tones are among the chord tones, and every melody
  index that carries the label \<open>guide_tone\<close> also carries the label \<open>chord_tone\<close>.
\<close>

theorem guide_tone_is_chord_tone:
  "set (guide_tone_set q root_pc) \<subseteq> set (chord_tone_set q root_pc) \<and>
   (k < length melody_pcs \<and>
    str ''guide_tone'' \<in> set (analyze_melody_functions melody_pcs root_pc q ! k) \<longrightarrow>
    str ''chord_tone'' \<in> set (analyze_melody_functions melody_pcs root_pc q ! k))"
proof (intro conjI impI)
  show "set (guide_tone_set q root_pc) \<subseteq> set (chord_tone_set q root_pc)"
    by (rule guide_subset_chord)
next
  assume a: "k < length melody_pcs \<and>
    str ''guide_tone'' \<in> set (analyze_melody_functions melody_pcs root_pc q ! k)"
  then have k: "k < length melody_pcs" by simp
  from a have "(k, str ''guide_tone'') \<in> set (all_ops melody_pcs root_pc q)"
    by (auto simp: nth_analyze_melody_functions)
  then have "melody_pcs ! k \<in> set (guide_tone_set q root_pc)"
    using tone_ops_guide by blast
  then have "melody_pcs ! k \<in> set (chord_tone_set q root_pc)"
    using guide_subset_chord by blast
  with k have "(k, str ''chord_tone'') \<in> set (all_ops melody_pcs root_pc q)"
    by (rule tone_ops_chord)
  then show "str ''chord_tone'' \<in> set (analyze_melody_functions melody_pcs root_pc q ! k)"
    using k by (force simp: nth_analyze_melody_functions)
qed

lemmas fn_eval =
  analyze_melody_functions_def tone_step_def scale_step_def neighbor_step_def
  passing_step_def append_label_def chord_tone_set_def guide_tone_set_def py_set_def
  is_step_def Let_def

theorem guide_tone_is_chord_tone_witness:
  "(0::nat) < length [4 :: int] \<and>
   str ''guide_tone'' \<in> set (analyze_melody_functions [4] 0 (str ''maj'') ! 0) \<and>
   str ''chord_tone'' \<in> set (analyze_melody_functions [4] 0 (str ''maj'') ! 0)"
proof -
  have e: "analyze_melody_functions [4] 0 (str ''maj'') ! 0 = [str ''guide_tone'', str ''chord_tone'']"
    by (simp add: fn_eval)
  have h: "(0::nat) < length [4 :: int] \<and>
           str ''guide_tone'' \<in> set (analyze_melody_functions [4] 0 (str ''maj'') ! 0)"
    by (simp add: e)
  with guide_tone_is_chord_tone [of "str ''maj''" 0 0 "[4]"] show ?thesis
    by blast
qed

subsection \<open>The classifier of the first analyzer\<close>

lemma tone_step_v1_ops: "tone_step_v1 c g ip L = apply_appends (tone_ops_v1 c g ip) L"
  by (cases ip) (simp add: tone_step_v1_def tone_ops_v1_def)

lemma passing_step_v1_ops: "passing_step_v1 c s m i L = apply_appends (passing_ops_v1 c s m i) L"
  by (auto simp: passing_step_v1_def passing_ops_v1_def Let_def)

lemma analyze_melody_functions_v1_ops:
  "analyze_melody_functions_v1 m s r = apply_appends (all_ops_v1 m s r) (replicate (length m) [])"
  unfolding analyze_melody_functions_v1_def Let_def all_ops_v1_def apply_appends_append
    chord_tones_v1_def guide_tones_v1_def
  by (simp only: fold_as_appends [of "tone_step_v1 _ _", OF tone_step_v1_ops]
      fold_as_appends [of "scale_step _", OF scale_step_ops]
      fold_as_appends [of "neighbor_step _ _", OF neighbor_step_ops]
      fold_as_appends [of "passing_step_v1 _ _ _", OF passing_step_v1_ops])

lemma length_analyze_melody_functions_v1: "length (analyze_melody_functions_v1 m s r) = length m"
  by (simp add: analyze_melody_functions_v1_ops)

lemma nth_analyze_melody_functions_v1:
  "k < length m \<Longrightarrow>
   analyze_melody_functions_v1 m s r ! k = map snd (filter (\<lambda>p. fst p = k) (all_ops_v1 m s r))"
  by (simp add: analyze_melody_functions_v1_ops nth_apply_appends)

lemma tone_ops_v1_shape:
  "tone_ops_v1 c g (i, pc) = [] \<or> tone_ops_v1 c g (i, pc) = [(i, str ''guide_tone'')] \<or>
   tone_ops_v1 c g (i, pc) = [(i, str ''chord_tone'')]"
  by (simp add: tone_ops_v1_def)

lemma passing_ops_v1_shape:
  "passing_ops_v1 c s m i = [] \<or> passing_ops_v1 c s m i = [(i, str ''chromatic_passing_tone'')] \<or>
   passing_ops_v1 c s m i = [(i, str ''passing_tone'')]"
  by (simp add: passing_ops_v1_def)

lemma tone_ops_v1_count:
  "count_list (tone_ops_v1 c g (i, pc)) (k, l) \<le> (if i = k then 1 else 0)"
  using tone_ops_v1_shape [of c g i pc] by auto

lemma tone_ops_v1_labels:
  "(k, l) \<in> set (tone_ops_v1 c g ip) \<Longrightarrow> l = str ''guide_tone'' \<or> l = str ''chord_tone''"
  using tone_ops_v1_shape [of c g "fst ip" "snd ip"] by auto

lemma passing_ops_v1_count:
  "count_list (passing_ops_v1 c s m i) (k, l) \<le> (if i \<in> {k} then 1 else 0)"
  using passing_ops_v1_shape [of c s m i] by auto

lemma passing_ops_v1_labels:
  "(k, l) \<in> set (passing_ops_v1 c s m i) \<Longrightarrow>
   l = str ''chromatic_passing_tone'' \<or> l = str ''passing_tone''"
  using passing_ops_v1_shape [of c s m i] by auto

lemma tone_count_v1:
  "count_list (concat (map (tone_ops_v1 c g) (enumerate 0 m))) (k, l)
     \<le> (if l = str ''guide_tone'' \<or> l = str ''chord_tone'' then 1 else 0)"
proof (cases "l = str ''guide_tone'' \<or> l = str ''chord_tone''")
  case True
  have "count_list (concat (map (tone_ops_v1 c g) (enumerate 0 m))) (k, l) \<le> card {(k, m ! k)}"
  proof (rule count_concat_bound)
    show "distinct (enumerate 0 m)" by (rule distinct_enumerate)
    show "finite {(k, m ! k)}" by simp
    show "\<forall>x\<in>set (enumerate 0 m).
            count_list (tone_ops_v1 c g x) (k, l) \<le> (if x \<in> {(k, m ! k)} then 1 else 0)"
    proof
      fix x
      assume x: "x \<in> set (enumerate 0 m)"
      obtain i pc where ip: "x = (i, pc)" by (cases x)
      from x ip have "pc = m ! i" by (simp add: in_set_enumerate_eq)
      with ip tone_ops_v1_count [of c g i pc k l]
      show "count_list (tone_ops_v1 c g x) (k, l) \<le> (if x \<in> {(k, m ! k)} then 1 else 0)"
        by (simp split: if_splits)
    qed
  qed
  with True show ?thesis by simp
next
  case False
  have "count_list (concat (map (tone_ops_v1 c g) (enumerate 0 m))) (k, l) = 0"
    by (rule count_concat_zero) (use False tone_ops_v1_labels in blast)
  then show ?thesis by simp
qed

lemma passing_count_v1:
  "count_list (concat (map (passing_ops_v1 c s m) [1..<n])) (k, l)
     \<le> (if l = str ''chromatic_passing_tone'' \<or> l = str ''passing_tone'' then 1 else 0)"
proof (cases "l = str ''chromatic_passing_tone'' \<or> l = str ''passing_tone''")
  case True
  have "count_list (concat (map (passing_ops_v1 c s m) [1..<n])) (k, l) \<le> card {k}"
  proof (rule count_concat_bound)
    show "distinct [1..<n]" by simp
    show "finite {k}" by simp
    show "\<forall>x\<in>set [1..<n].
            count_list (passing_ops_v1 c s m x) (k, l) \<le> (if x \<in> {k} then 1 else 0)"
      using passing_ops_v1_count by blast
  qed
  with True show ?thesis by simp
next
  case False
  have "count_list (concat (map (passing_ops_v1 c s m) [1..<n])) (k, l) = 0"
    by (rule count_concat_zero) (use False passing_ops_v1_labels in blast)
  then show ?thesis by simp
qed

lemma all_ops_v1_count:
  "(l = str ''scale_line'' \<longrightarrow>
      count_list (all_ops_v1 m s r) (k, l) = length (windows_containing m k)) \<and>
   (l \<noteq> str ''scale_line'' \<longrightarrow> count_list (all_ops_v1 m s r) (k, l) \<le> 1)"
proof -
  let ?n = "length m - 1"
  let ?c = "chord_tones_v1 r" and ?g = "guide_tones_v1 r"
  let ?A = "count_list (concat (map (tone_ops_v1 ?c ?g) (enumerate 0 m))) (k, l)"
  let ?B = "count_list (concat (map (scale_ops m) [1..<?n])) (k, l)"
  let ?C = "count_list (concat (map (neighbor_ops ?c m) [1..<?n])) (k, l)"
  let ?D = "count_list (concat (map (passing_ops_v1 ?c s m) [1..<?n])) (k, l)"
  have eq: "count_list (all_ops_v1 m s r) (k, l) = ?A + ?B + ?C + ?D"
    by (simp add: all_ops_v1_def)
  have "(l = str ''scale_line'' \<longrightarrow> ?A + ?B + ?C + ?D = ?B) \<and>
        (l \<noteq> str ''scale_line'' \<longrightarrow> ?A + ?B + ?C + ?D \<le> 1)"
    by (rule label_sections [OF tone_count_v1 _ neighbor_count passing_count_v1])
      (rule scale_count_other)
  with eq scale_count_windows [of m k] show ?thesis
    by auto
qed

lemmas fn_v1_eval =
  analyze_melody_functions_v1_def tone_step_v1_def scale_step_def neighbor_step_def
  passing_step_v1_def append_label_def is_step_def Let_def

lemmas window_eval = windows_containing_def stepwise_window_def upt_rec [of 0] upt_rec [of 1]
  upt_rec [of 2] upt_rec [of 3] upt_rec [of 4]

subsection \<open>Labels per index\<close>

text \<open>
  C8 (amended): both classifiers return one list of labels per melody index, and the
  list of an index \<open>k\<close> holds \<open>scale_line\<close> exactly once for every stepwise three-note
  window that contains \<open>k\<close>: as many times as there are window centres \<open>i\<close> with
  \<open>1 \<le> i\<close>, \<open>i + 1 < n\<close>, \<open>i - 1 \<le> k \<le> i + 1\<close>, whose two intervals modulo 12 are equal
  and one of 1, 2, 10, 11.  That is at most three times.  Every other label occurs at
  most once in the list of an index.
\<close>

theorem scale_line_once_per_window:
  "length (analyze_melody_functions melody_pcs root_pc q) = length melody_pcs \<and>
   length (analyze_melody_functions_v1 melody_pcs chord_scale_pcs root_pc) = length melody_pcs \<and>
   (k < length melody_pcs \<longrightarrow>
      count_list (analyze_melody_functions melody_pcs root_pc q ! k) (str ''scale_line'') =
        length (windows_containing melody_pcs k) \<and>
      count_list (analyze_melody_functions_v1 melody_pcs chord_scale_pcs root_pc ! k)
          (str ''scale_line'') =
        length (windows_containing melody_pcs k) \<and>
      length (windows_containing melody_pcs k) \<le> 3 \<and>
      (l \<noteq> str ''scale_line'' \<longrightarrow>
         count_list (analyze_melody_functions melody_pcs root_pc q ! k) l \<le> 1 \<and>
         count_list (analyze_melody_functions_v1 melody_pcs chord_scale_pcs root_pc ! k) l \<le> 1))"
  using all_ops_count [of "str ''scale_line''" melody_pcs root_pc q k]
    all_ops_count [of l melody_pcs root_pc q k]
    all_ops_v1_count [of "str ''scale_line''" melody_pcs chord_scale_pcs root_pc k]
    all_ops_v1_count [of l melody_pcs chord_scale_pcs root_pc k]
    windows_containing_le_3 [of melody_pcs k]
  by (simp add: length_analyze_melody_functions nth_analyze_melody_functions
      length_analyze_melody_functions_v1 nth_analyze_melody_functions_v1 count_filter_index)

text \<open>
  The theorem at the whole-tone line C, D, E, F#, G# over a C major chord (every
  interval is 2): the index 2 lies in the three windows 1, 2 and 3.  And at the
  descending line E, D, C (every interval is 10): one window.
\<close>

theorem scale_line_once_per_window_witness:
  "(2::nat) < length [0, 2, 4, 6, 8 :: int] \<and>
   str ''chord_tone'' \<noteq> str ''scale_line'' \<and>
   windows_containing [0, 2, 4, 6, 8] 2 = [1, 2, 3] \<and>
   count_list (analyze_melody_functions [0, 2, 4, 6, 8] 0 (str ''maj'') ! 2) (str ''scale_line'') = 3 \<and>
   count_list (analyze_melody_functions_v1 [0, 2, 4, 6, 8] [0, 2, 4, 5, 7, 9, 11] 0 ! 2)
     (str ''scale_line'') = 3 \<and>
   count_list (analyze_melody_functions [0, 2, 4, 6, 8] 0 (str ''maj'') ! 2) (str ''chord_tone'') \<le> 1 \<and>
   count_list (analyze_melody_functions_v1 [0, 2, 4, 6, 8] [0, 2, 4, 5, 7, 9, 11] 0 ! 2)
     (str ''chord_tone'') \<le> 1 \<and>
   (0::nat) < length [4, 2, 0 :: int] \<and>
   windows_containing [4, 2, 0] 0 = [1] \<and>
   count_list (analyze_melody_functions [4, 2, 0] 0 (str ''maj'') ! 0) (str ''scale_line'') = 1 \<and>
   count_list (analyze_melody_functions_v1 [4, 2, 0] [0, 2, 4, 5, 7, 9, 11] 0 ! 0)
     (str ''scale_line'') = 1"
proof -
  have l: "(2::nat) < length [0, 2, 4, 6, 8 :: int]" "(0::nat) < length [4, 2, 0 :: int]"
    by simp_all
  have d: "str ''chord_tone'' \<noteq> str ''scale_line''"
    by (simp add: str_def)
  have w: "windows_containing [0, 2, 4, 6, 8] 2 = [1, 2, 3]" "windows_containing [4, 2, 0] 0 = [1]"
    by (simp_all add: window_eval)
  from l d w
    scale_line_once_per_window [of "[0, 2, 4, 6, 8]" 0 "str ''maj''" "[0, 2, 4, 5, 7, 9, 11]" 2
      "str ''chord_tone''"]
    scale_line_once_per_window [of "[4, 2, 0]" 0 "str ''maj''" "[0, 2, 4, 5, 7, 9, 11]" 0
      "str ''chord_tone''"]
  show ?thesis
    by simp
qed

text \<open>
  C8, as the spec states it, makes the labels of an index a set.  The source keeps a list
  and the scale-line loop appends to the three indices of every stepwise window: in the
  melody C, C#, D, D# the index 1 lies in two such windows and gets \<open>scale_line\<close> twice.
\<close>

theorem scale_line_attached_twice:
  "count_list (analyze_melody_functions [0, 1, 2, 3] 0 (str ''maj'') ! 1) (str ''scale_line'') = 2"
proof -
  have "analyze_melody_functions [0, 1, 2, 3] 0 (str ''maj'') ! 1 =
          [str ''scale_line'', str ''scale_line'']"
    by (simp add: fn_eval)
  then show ?thesis by simp
qed

text \<open>
  The same melody through the classifier of the first analyzer, and the values of both
  classifiers on lines that move by 2, by 10 and by 11 semitones.
\<close>

lemma scale_line_values:
  "analyze_melody_functions_v1 [0, 1, 2, 3] [0, 2, 4, 5, 7, 9, 11] 0 ! 1 =
     [str ''scale_line'', str ''scale_line'']"
  "analyze_melody_functions [1, 3, 5] 0 (str ''maj'') =
     [[str ''scale_line''], [str ''scale_line''], [str ''scale_line'']]"
  "analyze_melody_functions [5, 3, 1] 0 (str ''maj'') =
     [[str ''scale_line''], [str ''scale_line''], [str ''scale_line'']]"
  "analyze_melody_functions [3, 2, 1] 0 (str ''maj'') =
     [[str ''scale_line''], [str ''scale_line''], [str ''scale_line'']]"
  "analyze_melody_functions [1, 3, 6] 0 (str ''maj'') = [[], [], []]"
  "analyze_melody_functions_v1 [5, 3, 1] [0, 2, 4, 5, 7, 9, 11] 0 =
     [[str ''scale_line''], [str ''scale_line''], [str ''scale_line'']]"
  by (simp_all add: fn_eval fn_v1_eval)


section \<open>The score of a mode\<close>

lemma fl_int: "\<bar>k\<bar> \<le> 2 ^ 53 \<Longrightarrow> fl (rat_of_int k) = rat_of_int k"
  by (rule fl_exact) (rule representable_of_int)

lemma fl_half: "\<bar>k\<bar> < 2 ^ 53 \<Longrightarrow> fl (rat_of_int k / 2) = rat_of_int k / 2"
  by (rule fl_exact) (rule representable_half)

lemma fl_nat: "n \<le> 2 ^ 53 \<Longrightarrow> fl (rat_of_nat n) = rat_of_nat n"
proof -
  assume "n \<le> 2 ^ 53"
  then have "int n \<le> int (2 ^ 53)"
    by (simp only: of_nat_le_iff)
  then have "\<bar>int n\<bar> \<le> 2 ^ 53"
    by simp
  from fl_int [OF this] show ?thesis by simp
qed

lemma fl_one: "fl 1 = 1"
  using fl_int [of 1] by simp

lemma fl_zero: "fl 0 = 0"
  by (simp add: fl_def)

lemma fl_int_range: "- 1000 \<le> k \<Longrightarrow> k \<le> 1000 \<Longrightarrow> fl (rat_of_int k) = rat_of_int k"
proof -
  assume "- 1000 \<le> k" and "k \<le> 1000"
  then have "\<bar>k\<bar> \<le> 1000" by simp
  also have "(1000::int) \<le> 2 ^ 53" by simp
  finally show ?thesis by (rule fl_int)
qed

lemma fl_half_range: "- 1000 \<le> k \<Longrightarrow> k \<le> 1000 \<Longrightarrow> fl (rat_of_int k / 2) = rat_of_int k / 2"
proof -
  assume "- 1000 \<le> k" and "k \<le> 1000"
  then have "\<bar>k\<bar> \<le> 1000" by simp
  also have "(1000::int) < 2 ^ 53" by simp
  finally show ?thesis by (rule fl_half)
qed

text \<open>The counting part of the score is computed without rounding.\<close>

lemma count_score_exact:
  assumes a: "0 \<le> a" "a \<le> 12" and b: "0 \<le> b" "b \<le> 12"
    and c: "0 \<le> c" "c \<le> 12" and d: "0 \<le> d" "d \<le> 12"
  shows "fsub (fadd (fsub (fadd 0 (fmul 4 (float_of_int a))) (fmul 10 (float_of_int b)))
                 (fmul (3 / 2) (float_of_int c)))
           (fmul (5 / 2) (float_of_int d))
         = 4 * rat_of_int a - 10 * rat_of_int b + (3 / 2) * rat_of_int c - (5 / 2) * rat_of_int d"
proof -
  have fa: "float_of_int a = rat_of_int a"
    unfolding float_of_int_def by (rule fl_int_range) (use a in linarith)+
  have fb: "float_of_int b = rat_of_int b"
    unfolding float_of_int_def by (rule fl_int_range) (use b in linarith)+
  have fc: "float_of_int c = rat_of_int c"
    unfolding float_of_int_def by (rule fl_int_range) (use c in linarith)+
  have fd: "float_of_int d = rat_of_int d"
    unfolding float_of_int_def by (rule fl_int_range) (use d in linarith)+
  have "fl (rat_of_int (4 * a)) = rat_of_int (4 * a)"
    by (rule fl_int_range) (use a in linarith)+
  then have 1: "fmul 4 (rat_of_int a) = rat_of_int (4 * a)"
    by (simp add: fmul_def)
  have "fl (rat_of_int (4 * a)) = rat_of_int (4 * a)"
    by (rule fl_int_range) (use a in linarith)+
  then have 2: "fadd 0 (rat_of_int (4 * a)) = rat_of_int (4 * a)"
    by (simp add: fadd_def)
  have "fl (rat_of_int (10 * b)) = rat_of_int (10 * b)"
    by (rule fl_int_range) (use b in linarith)+
  then have 3: "fmul 10 (rat_of_int b) = rat_of_int (10 * b)"
    by (simp add: fmul_def)
  have "fl (rat_of_int (4 * a - 10 * b)) = rat_of_int (4 * a - 10 * b)"
    by (rule fl_int_range) (use a b in linarith)+
  then have 4: "fsub (rat_of_int (4 * a)) (rat_of_int (10 * b)) = rat_of_int (4 * a - 10 * b)"
    by (simp add: fsub_def)
  have "fl (rat_of_int (3 * c) / 2) = rat_of_int (3 * c) / 2"
    by (rule fl_half_range) (use c in linarith)+
  then have 5: "fmul (3 / 2) (rat_of_int c) = rat_of_int (3 * c) / 2"
    by (simp add: fmul_def)
  have "fl (rat_of_int (8 * a - 20 * b + 3 * c) / 2) = rat_of_int (8 * a - 20 * b + 3 * c) / 2"
    by (rule fl_half_range) (use a b c in linarith)+
  moreover have "rat_of_int (4 * a - 10 * b) + rat_of_int (3 * c) / 2
            = rat_of_int (8 * a - 20 * b + 3 * c) / 2"
    by simp
  ultimately have 6: "fadd (rat_of_int (4 * a - 10 * b)) (rat_of_int (3 * c) / 2)
             = rat_of_int (8 * a - 20 * b + 3 * c) / 2"
    by (simp only: fadd_def)
  have "fl (rat_of_int (5 * d) / 2) = rat_of_int (5 * d) / 2"
    by (rule fl_half_range) (use d in linarith)+
  then have 7: "fmul (5 / 2) (rat_of_int d) = rat_of_int (5 * d) / 2"
    by (simp add: fmul_def)
  have "fl (rat_of_int (8 * a - 20 * b + 3 * c - 5 * d) / 2)
          = rat_of_int (8 * a - 20 * b + 3 * c - 5 * d) / 2"
    by (rule fl_half_range) (use a b c d in linarith)+
  moreover have "rat_of_int (8 * a - 20 * b + 3 * c) / 2 - rat_of_int (5 * d) / 2
            = rat_of_int (8 * a - 20 * b + 3 * c - 5 * d) / 2"
    by (simp add: diff_divide_distrib)
  ultimately have 8: "fsub (rat_of_int (8 * a - 20 * b + 3 * c) / 2) (rat_of_int (5 * d) / 2)
             = rat_of_int (8 * a - 20 * b + 3 * c - 5 * d) / 2"
    by (simp only: fsub_def)
  have "rat_of_int (8 * a - 20 * b + 3 * c - 5 * d) / 2
          = 4 * rat_of_int a - 10 * rat_of_int b + (3 / 2) * rat_of_int c - (5 / 2) * rat_of_int d"
    by simp
  then show ?thesis
    by (simp only: fa fb fc fd 1 2 3 4 5 6 7 8)
qed

lemma length_py_set: "length (py_set xs) = card (set xs)"
  by (simp add: py_set_def length_remdups_card_conv)

lemma length_filter_py_set: "length (filter P (py_set xs)) = card {x \<in> set xs. P x}"
proof -
  have "distinct (filter P (py_set xs))"
    by (simp add: py_set_def)
  then have "card (set (filter P (py_set xs))) = length (filter P (py_set xs))"
    by (rule distinct_card)
  moreover have "set (filter P (py_set xs)) = {x \<in> set xs. P x}"
    by (simp add: py_set_def)
  ultimately show ?thesis by simp
qed

lemma card_pcs_le: "card ((\<lambda>s. ((r::int) + s) mod 12) ` S) \<le> 12"
proof -
  have "(\<lambda>s. (r + s) mod 12) ` S \<subseteq> {0..<12::int}"
    by auto
  then have "card ((\<lambda>s. (r + s) mod 12) ` S) \<le> card {0..<12::int}"
    by (rule card_mono [rotated]) simp
  then show ?thesis by simp
qed

lemma melody_loop_eq:
  "melody_loop mp ws (enumerate k xs) hits sc =
     (hits @ map (\<lambda>pc. pc \<in> set mp) xs,
      foldl fadd sc (map (\<lambda>p. fmul 1 (ws ! fst p))
                       (filter (\<lambda>p. snd p \<in> set mp) (enumerate k xs))))"
  by (induction xs arbitrary: k hits sc) (simp_all add: Let_def)

lemma enumerate_as_map: "enumerate 0 xs = map (\<lambda>i. (i, xs ! i)) [0..<length xs]"
  by (rule nth_equalityI) (simp_all add: nth_enumerate_eq)

lemma hits_of_enumerate:
  "map (\<lambda>p. f (fst p)) (filter (\<lambda>p. snd p \<in> S) (enumerate 0 xs)) = map f (hit_positions S xs)"
proof -
  have "filter (\<lambda>p. snd p \<in> S) (enumerate 0 xs)
          = map (\<lambda>i. (i, xs ! i)) (filter (\<lambda>i. xs ! i \<in> S) [0..<length xs])"
    by (simp add: enumerate_as_map filter_map comp_def)
  then show ?thesis
    by (simp add: hit_positions_def comp_def)
qed

lemma hit_positions_less: "i \<in> set (hit_positions S xs) \<Longrightarrow> i < length xs"
  by (simp add: hit_positions_def)

lemma weights_nth:
  assumes "i < n"
  shows "weights (max n 1) ! i = spec_weight n i"
proof -
  from assms have m: "max n 1 = n" and z: "n \<noteq> 0"
    by auto
  from assms have "weights n ! i = int_truediv (int n - int i) (int n)"
    by (simp add: weights_def)
  also have "\<dots> = fl ((rat_of_nat n - rat_of_nat i) / rat_of_nat n)"
    by (simp add: int_truediv_def)
  also from z have "\<dots> = spec_weight n i"
    by (simp add: spec_weight_def exact_weight_def)
  finally show ?thesis
    by (simp only: m)
qed

lemma fmul_one_spec_weight: "fmul 1 (spec_weight n i) = spec_weight n i"
  by (simp add: fmul_def spec_weight_def fl_idem)

lemma melody_score_spec:
  "melody_score (mode_match_rank root_pc core extra melody_pcs m)
     = spec_melody_score ((\<lambda>i. (root_pc + i) mod 12) ` set (intervals m)) melody_pcs"
proof -
  let ?mp = "py_set (build_scale_from_intervals root_pc (intervals m))"
  let ?n = "length melody_pcs"
  let ?w = "weights (max ?n 1)"
  have s: "set ?mp = (\<lambda>i. (root_pc + i) mod 12) ` set (intervals m)"
    by (simp add: set_py_set build_scale_from_intervals_def)
  have "melody_score (mode_match_rank root_pc core extra melody_pcs m)
          = foldl fadd 0 (map (\<lambda>p. fmul 1 (?w ! fst p))
                            (filter (\<lambda>p. snd p \<in> set ?mp) (enumerate 0 melody_pcs)))"
    by (simp add: mode_match_rank_def Let_def melody_loop_eq)
  also have "\<dots> = foldl fadd 0 (map (\<lambda>i. fmul 1 (?w ! i)) (hit_positions (set ?mp) melody_pcs))"
    using hits_of_enumerate [of "\<lambda>i. fmul 1 (?w ! i)" "set ?mp" melody_pcs] by simp
  also have "map (\<lambda>i. fmul 1 (?w ! i)) (hit_positions (set ?mp) melody_pcs)
               = map (spec_weight ?n) (hit_positions (set ?mp) melody_pcs)"
  proof (rule map_cong)
    show "hit_positions (set ?mp) melody_pcs = hit_positions (set ?mp) melody_pcs"
      by (rule refl)
  next
    fix i
    assume "i \<in> set (hit_positions (set ?mp) melody_pcs)"
    then have "i < ?n"
      by (rule hit_positions_less)
    then have "?w ! i = spec_weight ?n i"
      by (rule weights_nth)
    then show "fmul 1 (?w ! i) = spec_weight ?n i"
      by (simp only: fmul_one_spec_weight)
  qed
  finally show ?thesis
    by (simp add: spec_melody_score_def float_sum_def s)
qed

lemma missing_core_set:
  "set (missing_core (mode_match_rank root_pc core extra melody_pcs m))
     = (\<lambda>s. (root_pc + s) mod 12) ` set core - (\<lambda>i. (root_pc + i) mod 12) ` set (intervals m)"
  by (auto simp: mode_match_rank_def Let_def set_py_set build_scale_from_intervals_def
      split: prod.splits)

lemma missing_extra_set:
  "set (missing_extra (mode_match_rank root_pc core extra melody_pcs m))
     = (\<lambda>s. (root_pc + s) mod 12) ` set extra - (\<lambda>i. (root_pc + i) mod 12) ` set (intervals m)"
  by (auto simp: mode_match_rank_def Let_def set_py_set build_scale_from_intervals_def
      split: prod.splits)

lemma missing_card:
  "length (filter (\<lambda>pc. pc \<notin> set (py_set (build_scale_from_intervals r ivs)))
             (py_set (map (\<lambda>s. (r + s) mod 12) xs)))
     = card ((\<lambda>s. (r + s) mod 12) ` set xs - (\<lambda>i. (r + i) mod 12) ` set ivs)"
proof -
  have "{x \<in> set (map (\<lambda>s. (r + s) mod 12) xs).
           x \<notin> set (py_set (build_scale_from_intervals r ivs))}
        = (\<lambda>s. (r + s) mod 12) ` set xs - (\<lambda>i. (r + i) mod 12) ` set ivs"
    by (auto simp: set_py_set build_scale_from_intervals_def)
  then show ?thesis
    by (simp add: length_filter_py_set)
qed

lemma score_spec:
  "score (mode_match_rank root_pc core extra melody_pcs m)
     = spec_score root_pc core extra melody_pcs m"
proof -
  let ?f = "\<lambda>s. (root_pc + s) mod 12"
  let ?M = "?f ` set (intervals m)"
  let ?mp = "py_set (build_scale_from_intervals root_pc (intervals m))"
  let ?cp = "py_set (map ?f core)" and ?ep = "py_set (map ?f extra)"
  let ?mc = "filter (\<lambda>pc. pc \<notin> set ?mp) ?cp" and ?me = "filter (\<lambda>pc. pc \<notin> set ?mp) ?ep"
  let ?a = "int (length ?cp) - int (length ?mc)" and ?b = "int (length ?mc)"
  let ?c = "int (length ?ep) - int (length ?me)" and ?d = "int (length ?me)"
  let ?ms = "melody_score (mode_match_rank root_pc core extra melody_pcs m)"
  have lc: "length ?cp = card (?f ` set core)" and le: "length ?ep = card (?f ` set extra)"
    by (simp_all add: length_py_set)
  have mc: "length ?mc = card (?f ` set core - ?M)" and me: "length ?me = card (?f ` set extra - ?M)"
    by (rule missing_card)+
  have bc: "length ?cp \<le> 12" and be: "length ?ep \<le> 12"
    unfolding lc le by (rule card_pcs_le)+
  have fc: "length ?mc \<le> length ?cp" and fe: "length ?me \<le> length ?ep"
    by (rule length_filter_le)+
  have a: "0 \<le> ?a" "?a \<le> 12" using bc fc by linarith+
  have b: "0 \<le> ?b" "?b \<le> 12" using bc fc by linarith+
  have c: "0 \<le> ?c" "?c \<le> 12" using be fe by linarith+
  have d: "0 \<le> ?d" "?d \<le> 12" using be fe by linarith+
  have "score (mode_match_rank root_pc core extra melody_pcs m)
          = fadd (fsub (fadd (fsub (fadd 0 (fmul 4 (float_of_int ?a))) (fmul 10 (float_of_int ?b)))
                          (fmul (3 / 2) (float_of_int ?c)))
                    (fmul (5 / 2) (float_of_int ?d))) ?ms"
    by (simp add: mode_match_rank_def Let_def split: prod.splits)
  also have "\<dots> = fadd (4 * rat_of_int ?a - 10 * rat_of_int ?b + (3 / 2) * rat_of_int ?c
                         - (5 / 2) * rat_of_int ?d) ?ms"
    by (simp only: count_score_exact [OF a b c d])
  also have "4 * rat_of_int ?a - 10 * rat_of_int ?b + (3 / 2) * rat_of_int ?c - (5 / 2) * rat_of_int ?d
               = spec_count_score root_pc core extra m"
    by (simp add: spec_count_score_def Let_def lc le mc me)
  finally show ?thesis
    by (simp add: spec_score_def fadd_def melody_score_spec)
qed

lemma exact_weight_bounds:
  assumes "i < n"
  shows "0 < exact_weight n i \<and> exact_weight n i \<le> 1"
proof -
  from assms have n: "n \<noteq> 0" and p: "rat_of_nat i < rat_of_nat n" and q: "(0::rat) < rat_of_nat n"
    by auto
  have "exact_weight n i = (rat_of_nat n - rat_of_nat i) / rat_of_nat n"
    using n by (simp add: exact_weight_def)
  moreover from p q have "0 < (rat_of_nat n - rat_of_nat i) / rat_of_nat n"
    by simp
  moreover from q have "(rat_of_nat n - rat_of_nat i) / rat_of_nat n \<le> 1"
    by (simp add: divide_le_eq_1)
  ultimately show ?thesis by simp
qed

lemma spec_weight_bounds:
  assumes "i < n"
  shows "0 < spec_weight n i \<and> spec_weight n i \<le> 1"
proof -
  from exact_weight_bounds [OF assms]
  have p: "0 < exact_weight n i" and l: "exact_weight n i \<le> 1" by simp_all
  from p have "0 < fl (exact_weight n i)" by (rule fl_positive)
  moreover from l have "fl (exact_weight n i) \<le> fl 1" by (rule fl_mono)
  ultimately show ?thesis by (simp add: spec_weight_def fl_one)
qed

lemma representable_spec_weight: "representable (spec_weight n i)"
  by (simp add: spec_weight_def representable_fl)

lemma weights_elem_bounds:
  assumes "w \<in> set (weights (max n 1))"
  shows "0 < w \<and> w \<le> 1"
proof -
  let ?n = "max n 1"
  from assms obtain i where i: "i < ?n" and w: "w = int_truediv (int ?n - int i) (int ?n)"
    by (auto simp: weights_def)
  have "w = fl ((rat_of_nat ?n - rat_of_nat i) / rat_of_nat ?n)"
    by (simp add: w int_truediv_def)
  also have "\<dots> = spec_weight ?n i"
    by (simp add: spec_weight_def exact_weight_def Let_def)
  finally show ?thesis
    using spec_weight_bounds [OF i] by simp
qed

text \<open>Sums of doubles, accumulated from left to right.\<close>

lemma foldl_fadd_nonneg:
  assumes "0 \<le> a" and "\<forall>w\<in>set ws. 0 \<le> w"
  shows "0 \<le> foldl fadd a ws"
  using assms
proof (induction ws arbitrary: a)
  case Nil
  then show ?case by simp
next
  case (Cons w ws)
  from Cons.prems have "0 \<le> a + w" by simp
  then have "0 \<le> fadd a w" unfolding fadd_def by (rule fl_nonneg)
  moreover from Cons.prems have "\<forall>w\<in>set ws. 0 \<le> w" by simp
  ultimately have "0 \<le> foldl fadd (fadd a w) ws" by (rule Cons.IH)
  then show ?case by simp
qed

lemma foldl_fadd_le_count:
  assumes "a \<le> rat_of_nat k" and "k + length ws \<le> 2 ^ 53" and "\<forall>w\<in>set ws. w \<le> 1"
  shows "foldl fadd a ws \<le> rat_of_nat (k + length ws)"
  using assms
proof (induction ws arbitrary: a k)
  case Nil
  then show ?case by simp
next
  case (Cons w ws)
  from Cons.prems(3) have w: "w \<le> 1" by simp
  with Cons.prems(1) have "a + w \<le> rat_of_nat (Suc k)" by simp
  then have "fl (a + w) \<le> fl (rat_of_nat (Suc k))" by (rule fl_mono)
  moreover from Cons.prems(2) have "Suc k \<le> 2 ^ 53" by simp
  then have "fl (rat_of_nat (Suc k)) = rat_of_nat (Suc k)" by (rule fl_nat)
  ultimately have 1: "fadd a w \<le> rat_of_nat (Suc k)" by (simp add: fadd_def)
  from Cons.prems(2) have 2: "Suc k + length ws \<le> 2 ^ 53" by simp
  from Cons.prems(3) have 3: "\<forall>w\<in>set ws. w \<le> 1" by simp
  from Cons.IH [OF 1 2 3] show ?case by simp
qed

lemma foldl_fadd_filter_le:
  assumes "representable a" and "a \<le> b" and "\<forall>x\<in>set xs. 0 \<le> f x"
  shows "foldl fadd a (map f (filter P xs)) \<le> foldl fadd b (map f xs)"
  using assms
proof (induction xs arbitrary: a b)
  case Nil
  then show ?case by simp
next
  case (Cons x xs)
  from Cons.prems(3) have fx: "0 \<le> f x" and rest: "\<forall>x\<in>set xs. 0 \<le> f x" by simp_all
  show ?case
  proof (cases "P x")
    case True
    from Cons.prems(2) have "a + f x \<le> b + f x" by simp
    then have "fadd a (f x) \<le> fadd b (f x)" unfolding fadd_def by (rule fl_mono)
    moreover have "representable (fadd a (f x))" unfolding fadd_def by (rule representable_fl)
    ultimately have "foldl fadd (fadd a (f x)) (map f (filter P xs))
                       \<le> foldl fadd (fadd b (f x)) (map f xs)"
      using rest by (intro Cons.IH)
    with True show ?thesis by simp
  next
    case False
    from Cons.prems(2) fx have "a \<le> b + f x" by simp
    then have "fl a \<le> fl (b + f x)" by (rule fl_mono)
    with Cons.prems(1) have "a \<le> fadd b (f x)" by (simp add: fl_exact fadd_def)
    with Cons.prems(1) have "foldl fadd a (map f (filter P xs)) \<le> foldl fadd (fadd b (f x)) (map f xs)"
      using rest by (intro Cons.IH)
    with False show ?thesis by simp
  qed
qed

lemma melody_score_le_positions:
  "spec_melody_score S xs \<le> float_sum (map (spec_weight (length xs)) [0..<length xs])"
proof -
  have "foldl fadd 0 (map (spec_weight (length xs)) (filter (\<lambda>i. xs ! i \<in> S) [0..<length xs]))
          \<le> foldl fadd 0 (map (spec_weight (length xs)) [0..<length xs])"
  proof (rule foldl_fadd_filter_le)
    show "representable 0" by (rule representable_zero)
    show "(0::rat) \<le> 0" by simp
    show "\<forall>x\<in>set [0..<length xs]. 0 \<le> spec_weight (length xs) x"
      using spec_weight_bounds by (simp add: less_imp_le)
  qed
  then show ?thesis
    by (simp add: spec_melody_score_def float_sum_def hit_positions_def)
qed

lemma melody_score_nonneg: "0 \<le> spec_melody_score S xs"
  unfolding spec_melody_score_def float_sum_def
proof (rule foldl_fadd_nonneg)
  show "(0::rat) \<le> 0" by simp
  show "\<forall>w\<in>set (map (spec_weight (length xs)) (hit_positions S xs)). 0 \<le> w"
    using spec_weight_bounds hit_positions_less by (auto simp: less_imp_le)
qed

lemma position_weights_sum_le:
  assumes "n \<le> 2 ^ 53"
  shows "float_sum (map (spec_weight n) [0..<n]) \<le> rat_of_nat n"
proof -
  have "foldl fadd 0 (map (spec_weight n) [0..<n])
          \<le> rat_of_nat (0 + length (map (spec_weight n) [0..<n]))"
  proof (rule foldl_fadd_le_count)
    show "0 \<le> rat_of_nat 0" by simp
    show "0 + length (map (spec_weight n) [0..<n]) \<le> 2 ^ 53" using assms by simp
    show "\<forall>w\<in>set (map (spec_weight n) [0..<n]). w \<le> 1"
      using spec_weight_bounds by auto
  qed
  then show ?thesis by (simp add: float_sum_def)
qed

lemmas score_eval =
  mode_match_rank_def py_set_def build_scale_from_intervals_def weights_def Let_def
  upt_rec [of 0] upt_rec [of 1]

lemmas exact_eval =
  exact_score_def spec_count_score_def exact_melody_score_def hit_positions_def exact_weight_def
  Let_def upt_conv_Cons

text \<open>
  C1, as the spec states it, equates the score with the value of the formula.  The source
  computes in doubles, and every division and addition is rounded: for the melody
  C#, C, C# over a C major triad and the Ionian mode, the only hit is position 1, whose
  weight \<open>2/3\<close> is not a double, so the score is \<open>12.666666666666666\<close> and not \<open>38/3\<close>.
\<close>

theorem score_not_exact_formula:
  "score (mode_match_rank 0 [0, 4, 7] [] [1, 0, 1]
      \<lparr> family = str ''major'', family_rank = 0, mode_rank = 0, name = str ''Ionian (major)'',
        intervals = [0, 2, 4, 5, 7, 9, 11] \<rparr>)
     \<noteq> exact_score 0 [0, 4, 7] [] [1, 0, 1]
      \<lparr> family = str ''major'', family_rank = 0, mode_rank = 0, name = str ''Ionian (major)'',
        intervals = [0, 2, 4, 5, 7, 9, 11] \<rparr>"
proof -
  let ?m = "\<lparr> family = str ''major'', family_rank = 0, mode_rank = 0,
              name = str ''Ionian (major)'', intervals = [0, 2, 4, 5, 7, 9, 11] \<rparr>"
  have 1: "melody_score (mode_match_rank 0 [0, 4, 7] [] [1, 0, 1] ?m)
             = 6004799503160661 / 9007199254740992"
    by (simp add: score_eval) (simp add: fl_eval)
  have 2: "score (mode_match_rank 0 [0, 4, 7] [] [1, 0, 1] ?m)
             = 7130699410003285 / 562949953421312"
    by (simp add: score_eval) (simp add: fl_eval)
  have 3: "exact_score 0 [0, 4, 7] [] [1, 0, 1] ?m = 38 / 3"
    by (simp add: exact_eval)
  show ?thesis
    unfolding 2 3 by simp
qed

text \<open>
  C9, as the spec states it, bounds the melody score by the sum of the position weights.
  For thirteen notes that all lie in the mode the weights \<open>(13 - i) / 13\<close> add up to 7,
  and the rounded additions of the source give \<open>7.000000000000001\<close>.
\<close>

theorem melody_score_exceeds_exact_sum:
  "\<not> melody_score (mode_match_rank 0 [0, 4, 7] [] [0, 0, 0, 0, 0, 0, 0, 0, 0, 0, 0, 0, 0]
        \<lparr> family = str ''major'', family_rank = 0, mode_rank = 0, name = str ''Ionian (major)'',
          intervals = [0, 2, 4, 5, 7, 9, 11] \<rparr>)
     \<le> sum_list (map (exact_weight 13) [0..<13])"
proof -
  let ?m = "\<lparr> family = str ''major'', family_rank = 0, mode_rank = 0,
              name = str ''Ionian (major)'', intervals = [0, 2, 4, 5, 7, 9, 11] \<rparr>"
  have 1: "melody_score (mode_match_rank 0 [0, 4, 7] [] [0, 0, 0, 0, 0, 0, 0, 0, 0, 0, 0, 0, 0] ?m)
             = 7881299347898369 / 1125899906842624"
    by (simp add: score_eval) (simp add: fl_eval)
  have 2: "sum_list (map (exact_weight 13) [0..<13]) = 7"
    by (simp add: exact_weight_def upt_conv_Cons)
  show ?thesis
    unfolding 1 2 by simp
qed

text \<open>
  C1 (amended): for every root pitch class, core offsets, extra offsets, melody and mode
  (so for each of the 21 modes of the catalog), the score computed by \<open>mode_match_rank\<close>
  is the double nearest to
  \<open>4 (|core_pcs| - |missing_core|) - 10 |missing_core| + 1.5 (|extra_pcs| - |missing_extra|)
  - 2.5 |missing_extra| + melody_score\<close>, where the missing sets are the core and extra
  pitch classes outside the pitch-class set of the mode, the counting part is computed
  without rounding, and the melody score is the sum, accumulated in doubles in the order
  of the positions, of the weights \<open>(n - i) / n\<close> (each rounded to a double, \<open>n = 0\<close>
  treated as \<open>n = 1\<close>) of the positions \<open>i\<close> whose pitch class is in that set.
\<close>

theorem mode_score_formula:
  "score (mode_match_rank root_pc core extra melody_pcs m)
     = fl (spec_count_score root_pc core extra m
           + melody_score (mode_match_rank root_pc core extra melody_pcs m)) \<and>
   score (mode_match_rank root_pc core extra melody_pcs m)
     = spec_score root_pc core extra melody_pcs m \<and>
   melody_score (mode_match_rank root_pc core extra melody_pcs m)
     = spec_melody_score ((\<lambda>i. (root_pc + i) mod 12) ` set (intervals m)) melody_pcs \<and>
   set (missing_core (mode_match_rank root_pc core extra melody_pcs m))
     = (\<lambda>s. (root_pc + s) mod 12) ` set core - (\<lambda>i. (root_pc + i) mod 12) ` set (intervals m) \<and>
   set (missing_extra (mode_match_rank root_pc core extra melody_pcs m))
     = (\<lambda>s. (root_pc + s) mod 12) ` set extra - (\<lambda>i. (root_pc + i) mod 12) ` set (intervals m) \<and>
   length MODE_CATALOG = 21"
proof -
  have 1: "score (mode_match_rank root_pc core extra melody_pcs m)
             = spec_score root_pc core extra melody_pcs m"
    by (rule score_spec)
  have 2: "melody_score (mode_match_rank root_pc core extra melody_pcs m)
     = spec_melody_score ((\<lambda>i. (root_pc + i) mod 12) ` set (intervals m)) melody_pcs"
    by (rule melody_score_spec)
  have 3: "score (mode_match_rank root_pc core extra melody_pcs m)
     = fl (spec_count_score root_pc core extra m
           + melody_score (mode_match_rank root_pc core extra melody_pcs m))"
    unfolding 1 2 by (simp add: spec_score_def)
  have 4: "length MODE_CATALOG = 21"
    by (simp add: MODE_CATALOG_def major_modes_def melodic_minor_modes_def
        harmonic_minor_modes_def)
  from 1 2 3 4 missing_core_set [of root_pc core extra melody_pcs m]
    missing_extra_set [of root_pc core extra melody_pcs m]
  show ?thesis
    by blast
qed

text \<open>
  C9 (amended): for every mode and every melody of \<open>n\<close> notes the melody score is
  non-negative and at most the sum of the \<open>n\<close> position weights when these are the
  doubles the source computes and are added in doubles in the order of the positions;
  for \<open>n \<le> 2^53\<close> this sum, and so the melody score, is at most \<open>n\<close>, because each
  weight is positive and at most 1.  The same bounds hold for the entries of the list
  \<open>weights\<close> the source builds, which has \<open>max(n, 1)\<close> entries.
\<close>

theorem melody_score_bounds:
  "0 \<le> melody_score (mode_match_rank root_pc core extra melody_pcs m) \<and>
   melody_score (mode_match_rank root_pc core extra melody_pcs m)
     \<le> float_sum (map (spec_weight (length melody_pcs)) [0..<length melody_pcs]) \<and>
   (length melody_pcs \<le> 2 ^ 53 \<longrightarrow>
      float_sum (map (spec_weight (length melody_pcs)) [0..<length melody_pcs])
        \<le> rat_of_nat (length melody_pcs) \<and>
      melody_score (mode_match_rank root_pc core extra melody_pcs m)
        \<le> rat_of_nat (length melody_pcs)) \<and>
   (i < length melody_pcs \<longrightarrow>
      0 < spec_weight (length melody_pcs) i \<and> spec_weight (length melody_pcs) i \<le> 1) \<and>
   (\<forall>w\<in>set (weights (max (length melody_pcs) 1)). 0 < w \<and> w \<le> 1)"
proof -
  let ?S = "(\<lambda>i. (root_pc + i) mod 12) ` set (intervals m)"
  let ?ms = "melody_score (mode_match_rank root_pc core extra melody_pcs m)"
  let ?n = "length melody_pcs"
  let ?W = "float_sum (map (spec_weight ?n) [0..<?n])"
  have eq: "?ms = spec_melody_score ?S melody_pcs"
    by (rule melody_score_spec)
  have 1: "0 \<le> ?ms"
    unfolding eq by (rule melody_score_nonneg)
  have 2: "?ms \<le> ?W"
    unfolding eq by (rule melody_score_le_positions)
  have 3: "?n \<le> 2 ^ 53 \<longrightarrow> ?W \<le> rat_of_nat ?n \<and> ?ms \<le> rat_of_nat ?n"
  proof
    assume "?n \<le> 2 ^ 53"
    then have "?W \<le> rat_of_nat ?n"
      by (rule position_weights_sum_le)
    with 2 show "?W \<le> rat_of_nat ?n \<and> ?ms \<le> rat_of_nat ?n"
      by simp
  qed
  have 4: "i < ?n \<longrightarrow> 0 < spec_weight ?n i \<and> spec_weight ?n i \<le> 1"
    using spec_weight_bounds by blast
  have 5: "\<forall>w\<in>set (weights (max ?n 1)). 0 < w \<and> w \<le> 1"
    using weights_elem_bounds by blast
  from 1 2 3 4 5 show ?thesis by blast
qed

theorem melody_score_bounds_witness:
  "length [6, 9, 0, 2 :: int] \<le> 2 ^ 53 \<and> (1::nat) < length [6, 9, 0, 2 :: int] \<and>
   3 / 4 \<in> set (weights (max (length [6, 9, 0, 2 :: int]) 1)) \<and>
   spec_weight (length [6, 9, 0, 2 :: int]) 1 \<le> 1 \<and> (3 / 4 :: rat) \<le> 1 \<and>
   melody_score (mode_match_rank 7 [0, 4, 7, 10] [] [6, 9, 0, 2]
     \<lparr> family = str ''major'', family_rank = 0, mode_rank = 4, name = str ''Mixolydian'',
       intervals = [0, 2, 4, 5, 7, 9, 10] \<rparr>) \<le> rat_of_nat (length [6, 9, 0, 2 :: int])"
proof -
  let ?m = "\<lparr> family = str ''major'', family_rank = 0, mode_rank = 4, name = str ''Mixolydian'',
       intervals = [0, 2, 4, 5, 7, 9, 10] \<rparr>"
  note b = melody_score_bounds [of 7 "[0, 4, 7, 10]" "[]" "[6, 9, 0, 2]" ?m 1]
  have n: "length [6, 9, 0, 2 :: int] \<le> 2 ^ 53"
    by simp
  have l: "(1::nat) < length [6, 9, 0, 2 :: int]"
    by simp
  have w: "3 / 4 \<in> set (weights (max (length [6, 9, 0, 2 :: int]) 1))"
    by (simp add: weights_def upt_rec [of 0] upt_rec [of 1]) (simp add: fl_eval)
  from b l have 1: "spec_weight (length [6, 9, 0, 2 :: int]) 1 \<le> 1"
    by blast
  from b w have 2: "(3 / 4 :: rat) \<le> 1"
    by blast
  from b n have 3: "melody_score (mode_match_rank 7 [0, 4, 7, 10] [] [6, 9, 0, 2] ?m)
                    \<le> rat_of_nat (length [6, 9, 0, 2 :: int])"
    by blast
  from n l w 1 2 3 show ?thesis
    by blast
qed

end
